theory Spec2Isabelle
  imports
    Main
    "HOL-Library.Multiset"
    "HOL-Library.Char_ord"
    "HOL-Library.List_Lexorder"
begin

chapter \<open>The program\<close>

section \<open>Data model\<close>

text \<open>
  A \<open>Node*\<close> is either the null pointer or the address of a \<open>struct Node\<close> holding
  a string \<open>value\<close> and two further pointers \<open>left\<close> and \<open>right\<close>. The rewriting
  passes create fresh nodes and overwrite fields of nodes in place. A pointer is
  modelled by the tree it points to: wherever a pass overwrites a field, the old node is
  reachable from nowhere else, with one exception. The distribution pass hands the
  same subtree to two new parents; the only writes it later performs below them are
  \<open>root->left = distributeOrOverAnd(root->left)\<close> on subtrees that the pass has
  already produced, and those calls return the subtree they are given
  (lemma \<open>distributeOrOverAnd_fixpoint\<close>), so the shared subtree is never changed.
\<close>

datatype node = Nullptr | Node string node node

text \<open>
  Failures that are not ordinary return values: dereferencing a null pointer,
  \<open>unordered_map::at\<close> throwing \<open>std::out_of_range\<close>, and a left shift of an \<open>int\<close> by
  32 bits or more.
\<close>

datatype error = NullDeref | OutOfRange | UndefinedShift

definition isOperator :: "string \<Rightarrow> bool" where
  "isOperator s = (s = ''*'' \<or> s = ''+'' \<or> s = ''>'' \<or> s = ''~'')"

definition precedence :: "string \<Rightarrow> int" where
  "precedence op =
     (if op = ''~'' then 3
      else if op = ''*'' then 2
      else if op = ''+'' then 1
      else if op = ''>'' then 0
      else -1)"

section \<open>Tokenizer\<close>

text \<open>
  \<open>isspace\<close> and \<open>isalnum\<close> of the C library in the "C" locale, on the byte value of
  a character: the six white-space characters, and the ASCII digits and letters.
\<close>

definition isspace :: "char \<Rightarrow> bool" where
  "isspace c = (of_char c = (32::nat) \<or> (9 \<le> (of_char c :: nat) \<and> (of_char c :: nat) \<le> 13))"

definition isalnum :: "char \<Rightarrow> bool" where
  "isalnum c =
     ((48 \<le> (of_char c :: nat) \<and> (of_char c :: nat) \<le> 57)
      \<or> (65 \<le> (of_char c :: nat) \<and> (of_char c :: nat) \<le> 90)
      \<or> (97 \<le> (of_char c :: nat) \<and> (of_char c :: nat) \<le> 122))"

text \<open>The characters that continue an atom: \<open>isalnum(c) || c == '_'\<close>.\<close>

definition isAtomChar :: "char \<Rightarrow> bool" where
  "isAtomChar c = (isalnum c \<or> c = CHR ''_'')"

text \<open>
  \<open>tokenize\<close>. The index \<open>i\<close> of the source is the position of the remaining input.
  An atom is only started by \<open>isalnum\<close>; the inner loop then consumes every following
  character that is alphanumeric or an underscore. Both branches of the test on
  \<open>">"\<close> push the one-character string.
\<close>

function tokenize :: "string \<Rightarrow> string list" where
  "tokenize [] = []"
| "tokenize (c # cs) =
     (if isspace c then tokenize cs
      else if isalnum c then
        (c # takeWhile isAtomChar cs) # tokenize (dropWhile isAtomChar cs)
      else if [c] = ''>'' then ''>'' # tokenize cs
      else [c] # tokenize cs)"
  by pat_completeness auto
termination
  by (relation "measure length") (auto simp: less_Suc_eq_le length_dropWhile_le)

section \<open>Infix to prefix\<close>

text \<open>
  \<open>isalnum(token[0])\<close>: on an empty \<open>std::string\<close>, \<open>token[0]\<close> is the terminating
  null character, which is not alphanumeric.
\<close>

fun startsAlnum :: "string \<Rightarrow> bool" where
  "startsAlnum [] = False"
| "startsAlnum (c # cs) = isalnum c"

text \<open>
  The operator stack is a list with its top at the head. The two inner loops of
  \<open>infixToPrefix\<close>:
  \<open>while (!ops.empty() && ops.top() != "(")\<close> and
  \<open>while (!ops.empty() && precedence(ops.top()) > precedence(token))\<close>, each moving the
  top of the stack to the end of the output.
\<close>

fun popToOpen :: "string list \<Rightarrow> string list \<Rightarrow> string list \<times> string list" where
  "popToOpen [] output = ([], output)"
| "popToOpen (tp # ops) output =
     (if tp \<noteq> ''('' then popToOpen ops (output @ [tp]) else (tp # ops, output))"

fun popHigher :: "string \<Rightarrow> string list \<Rightarrow> string list \<Rightarrow> string list \<times> string list" where
  "popHigher token [] output = ([], output)"
| "popHigher token (tp # ops) output =
     (if precedence tp > precedence token then popHigher token ops (output @ [tp])
      else (tp # ops, output))"

text \<open>
  The main loop over the (reversed and swapped) tokens. After the first inner loop a
  remaining top, necessarily \<open>(\<close>, is popped. A token that is neither an atom, a
  parenthesis nor an operator is dropped.
\<close>

fun shunt :: "string list \<Rightarrow> string list \<Rightarrow> string list \<Rightarrow> string list \<times> string list" where
  "shunt [] ops output = (ops, output)"
| "shunt (token # tokens) ops output =
     (if startsAlnum token then shunt tokens ops (output @ [token])
      else if token = ''('' then shunt tokens (token # ops) output
      else if token = '')'' then
        (case popToOpen ops output of
           ([], output') \<Rightarrow> shunt tokens [] output'
         | (tp # ops', output') \<Rightarrow> shunt tokens ops' output')
      else if isOperator token then
        (case popHigher token ops output of
           (ops', output') \<Rightarrow> shunt tokens (token # ops') output')
      else shunt tokens ops output)"

definition swapParen :: "string \<Rightarrow> string" where
  "swapParen t = (if t = ''('' then '')'' else if t = '')'' then ''('' else t)"

text \<open>
  \<open>infixToPrefix\<close> on the token sequence, and on the text. The final loop moves the
  whole remaining stack to the output, top first.
\<close>

definition prefixOfTokens :: "string list \<Rightarrow> string list" where
  "prefixOfTokens tokens =
     (case shunt (map swapParen (rev tokens)) [] [] of
        (ops, output) \<Rightarrow> rev (output @ ops))"

definition infixToPrefix :: "string \<Rightarrow> string list" where
  "infixToPrefix expr = prefixOfTokens (tokenize expr)"

section \<open>Tree builder\<close>

text \<open>
  \<open>buildParseTree\<close> scans the prefix tokens from the last to the first; \<open>buildLoop\<close>
  is that loop on the reversed sequence, with the stack of subtrees (top at the head).
  The result \<open>Nullptr\<close> is the \<open>return nullptr\<close> of the source.
\<close>

fun buildLoop :: "string list \<Rightarrow> node list \<Rightarrow> node" where
  "buildLoop [] st = (case st of [root] \<Rightarrow> root | _ \<Rightarrow> Nullptr)"
| "buildLoop (token # tokens) st =
     (if isOperator token then
        (if token = ''~'' then
           (case st of
              [] \<Rightarrow> Nullptr
            | l # st' \<Rightarrow> buildLoop tokens (Node token l Nullptr # st'))
         else
           (case st of
              l # r # st' \<Rightarrow> buildLoop tokens (Node token l r # st')
            | _ \<Rightarrow> Nullptr))
      else buildLoop tokens (Node token Nullptr Nullptr # st))"

definition buildParseTree :: "string list \<Rightarrow> node" where
  "buildParseTree prefix = buildLoop (rev prefix) []"

section \<open>Evaluation\<close>

text \<open>
  \<open>evaluate\<close> with the short-circuit order of \<open>&&\<close> and \<open>||\<close>: the right operand is
  only evaluated (and can only fail) when the left one does not decide the result.
\<close>

fun evaluate :: "node \<Rightarrow> (string \<rightharpoonup> bool) \<Rightarrow> error + bool" where
  "evaluate Nullptr vals = Inl NullDeref"
| "evaluate (Node v l r) vals =
     (if l = Nullptr \<and> r = Nullptr then
        (case vals v of None \<Rightarrow> Inl OutOfRange | Some b \<Rightarrow> Inr b)
      else if v = ''~'' then
        (case evaluate l vals of Inl e \<Rightarrow> Inl e | Inr a \<Rightarrow> Inr (\<not> a))
      else if v = ''*'' then
        (case evaluate l vals of Inl e \<Rightarrow> Inl e
         | Inr a \<Rightarrow> if a then evaluate r vals else Inr False)
      else if v = ''+'' then
        (case evaluate l vals of Inl e \<Rightarrow> Inl e
         | Inr a \<Rightarrow> if a then Inr True else evaluate r vals)
      else if v = ''>'' then
        (case evaluate l vals of Inl e \<Rightarrow> Inl e
         | Inr a \<Rightarrow> if \<not> a then Inr True else evaluate r vals)
      else Inr False)"

text \<open>\<open>evaluateNode\<close>, the copy of \<open>evaluate\<close> used by the truth table.\<close>

fun evaluateNode :: "node \<Rightarrow> (string \<rightharpoonup> bool) \<Rightarrow> error + bool" where
  "evaluateNode Nullptr vals = Inl NullDeref"
| "evaluateNode (Node v l r) vals =
     (if l = Nullptr \<and> r = Nullptr then
        (case vals v of None \<Rightarrow> Inl OutOfRange | Some b \<Rightarrow> Inr b)
      else if v = ''~'' then
        (case evaluateNode l vals of Inl e \<Rightarrow> Inl e | Inr a \<Rightarrow> Inr (\<not> a))
      else if v = ''*'' then
        (case evaluateNode l vals of Inl e \<Rightarrow> Inl e
         | Inr a \<Rightarrow> if a then evaluateNode r vals else Inr False)
      else if v = ''+'' then
        (case evaluateNode l vals of Inl e \<Rightarrow> Inl e
         | Inr a \<Rightarrow> if a then Inr True else evaluateNode r vals)
      else if v = ''>'' then
        (case evaluateNode l vals of Inl e \<Rightarrow> Inl e
         | Inr a \<Rightarrow> if \<not> a then Inr True else evaluateNode r vals)
      else Inr False)"

section \<open>Truth table\<close>

text \<open>
  \<open>collectAtoms\<close> adds to the set passed by reference. The \<open>std::set<std::string>\<close> is
  read in ascending order of \<open>std::string::operator<\<close>, the lexicographic order on
  bytes, which is the order on \<open>string\<close> used here.
\<close>

fun collectAtoms :: "node \<Rightarrow> string set \<Rightarrow> string set" where
  "collectAtoms Nullptr atoms = atoms"
| "collectAtoms (Node v l r) atoms =
     collectAtoms r (collectAtoms l
       (if l = Nullptr \<and> r = Nullptr \<and> \<not> isOperator v then insert v atoms else atoms))"

text \<open>
  The printed table as data: the header (the atoms) and one row per assignment, with the
  printed values and the result.
\<close>

datatype table = EmptyTree | NoAtoms | Rows "string list" "(bool list \<times> bool) list"

text \<open>
  \<open>int total = 1 << n\<close> on a 32-bit \<open>int\<close>: the value \<open>2 ^ n\<close> reduced to the
  two's-complement range, and undefined for \<open>n \<ge> 32\<close>. For \<open>n = 31\<close> the result is
  \<open>- 2 ^ 31\<close>.
\<close>

definition int32 :: "int \<Rightarrow> int" where
  "int32 x = (x + 2 ^ 31) mod 2 ^ 32 - 2 ^ 31"

definition shiftLeftOne :: "nat \<Rightarrow> int option" where
  "shiftLeftOne n = (if n < 32 then Some (int32 (2 ^ n)) else None)"

text \<open>\<open>(i >> k) & 1\<close> for a non-negative \<open>i\<close>, and the values of row \<open>i\<close>.\<close>

definition bitOf :: "nat \<Rightarrow> nat \<Rightarrow> bool" where
  "bitOf i k = odd (i div 2 ^ k)"

definition assignmentRow :: "nat \<Rightarrow> nat \<Rightarrow> bool list" where
  "assignmentRow n i = map (\<lambda>j. bitOf i (n - j - 1)) [0..<n]"

text \<open>\<open>assignment[atoms[j]] = val\<close> for \<open>j = 0, \<dots>, n - 1\<close>.\<close>

fun assign :: "string list \<Rightarrow> bool list \<Rightarrow> (string \<rightharpoonup> bool) \<Rightarrow> (string \<rightharpoonup> bool)" where
  "assign (a # atoms) (v # vals) assignment = assign atoms vals (assignment(a \<mapsto> v))"
| "assign _ _ assignment = assignment"

text \<open>
  The rows for the indices \<open>i\<close> in order. An exception or a null dereference in
  \<open>evaluateNode\<close> ends the program; the rows printed before it are not kept.
\<close>

fun tableRows :: "node \<Rightarrow> string list \<Rightarrow> nat list \<Rightarrow> error + (bool list \<times> bool) list" where
  "tableRows root atoms [] = Inr []"
| "tableRows root atoms (i # rest) =
     (case evaluateNode root (assign atoms (assignmentRow (length atoms) i) Map.empty) of
        Inl e \<Rightarrow> Inl e
      | Inr result \<Rightarrow>
         (case tableRows root atoms rest of
            Inl e \<Rightarrow> Inl e
          | Inr rows \<Rightarrow> Inr ((assignmentRow (length atoms) i, result) # rows)))"

definition generateTruthTable :: "node \<Rightarrow> error + table" where
  "generateTruthTable root =
     (if root = Nullptr then Inr EmptyTree
      else
        let atoms = sorted_list_of_set (collectAtoms root {}); n = length atoms in
        if n = 0 then Inr NoAtoms
        else
          (case shiftLeftOne n of
             None \<Rightarrow> Inl UndefinedShift
           | Some totalRows \<Rightarrow>
              (case tableRows root atoms [0..<nat totalRows] of
                 Inl e \<Rightarrow> Inl e
               | Inr rows \<Rightarrow> Inr (Rows atoms rows))))"

section \<open>CNF conversion\<close>

fun eliminateImplications :: "node \<Rightarrow> node" where
  "eliminateImplications Nullptr = Nullptr"
| "eliminateImplications (Node v l r) =
     (if l = Nullptr \<and> r = Nullptr then Node v l r
      else
        let l' = eliminateImplications l; r' = eliminateImplications r in
        if v = ''>'' then Node ''+'' (Node ''~'' l' Nullptr) r'
        else Node v l' r')"

text \<open>
  \<open>moveNegations\<close>. \<open>new Node("~", child->left, nullptr)\<close> is a leaf when
  \<open>child->left\<close> is null.
\<close>

fun moveNegations :: "node \<Rightarrow> node" where
  "moveNegations Nullptr = Nullptr"
| "moveNegations (Node v l r) =
     (if l = Nullptr \<and> r = Nullptr then Node v l r
      else if v = ''~'' then
        (case l of
           Nullptr \<Rightarrow> Nullptr
         | Node cv cl cr \<Rightarrow>
             if cv = ''~'' then moveNegations cl
             else if cv = ''+'' then
               Node ''*'' (moveNegations (Node ''~'' cl Nullptr))
                          (moveNegations (Node ''~'' cr Nullptr))
             else if cv = ''*'' then
               Node ''+'' (moveNegations (Node ''~'' cl Nullptr))
                          (moveNegations (Node ''~'' cr Nullptr))
             else Node v l r)
      else Node v (moveNegations l) (moveNegations r))"

text \<open>
  \<open>distributeOrOverAnd\<close> recurses on trees built from the results of its own recursive
  calls, so its termination needs a measure that the pass does not increase: a
  disjunction weighs the product of its parts, every other node the sum plus one.
  \<open>A->value\<close> and \<open>B->value\<close> dereference a null pointer when the child is missing.
\<close>

fun weight :: "node \<Rightarrow> nat" where
  "weight Nullptr = 2"
| "weight (Node v l r) = (if v = ''+'' then weight l * weight r else weight l + weight r + 1)"

function distributeOrOverAnd :: "node \<Rightarrow> error + node" where
  "distributeOrOverAnd Nullptr = Inr Nullptr"
| "distributeOrOverAnd (Node v l r) =
     (if l = Nullptr \<and> r = Nullptr then Inr (Node v l r)
      else
        case distributeOrOverAnd l of
          Inl e \<Rightarrow> Inl e
        | Inr A \<Rightarrow>
           (case distributeOrOverAnd r of
              Inl e \<Rightarrow> Inl e
            | Inr B \<Rightarrow>
               if v = ''+'' then
                 (case A of
                    Nullptr \<Rightarrow> Inl NullDeref
                  | Node av al ar \<Rightarrow>
                      if av = ''*'' then
                        (case distributeOrOverAnd (Node ''+'' al B) of
                           Inl e \<Rightarrow> Inl e
                         | Inr x \<Rightarrow>
                            (case distributeOrOverAnd (Node ''+'' ar B) of
                               Inl e \<Rightarrow> Inl e
                             | Inr y \<Rightarrow> Inr (Node ''*'' x y)))
                      else
                        (case B of
                           Nullptr \<Rightarrow> Inl NullDeref
                         | Node bv bl br \<Rightarrow>
                             if bv = ''*'' then
                               (case distributeOrOverAnd (Node ''+'' A bl) of
                                  Inl e \<Rightarrow> Inl e
                                | Inr x \<Rightarrow>
                                   (case distributeOrOverAnd (Node ''+'' A br) of
                                      Inl e \<Rightarrow> Inl e
                                    | Inr y \<Rightarrow> Inr (Node ''*'' x y)))
                             else Inr (Node v A B)))
               else Inr (Node v A B)))"
  by pat_completeness auto

lemma weight_ge2: "2 \<le> weight t"
proof (induction t)
  case Nullptr show ?case by simp
next
  case (Node v l r)
  have "2 * 2 \<le> weight l * weight r" using Node by (intro mult_le_mono) auto
  then show ?case using Node by auto
qed

lemma weight_plus_star:
  assumes "x \<le> weight a * weight b" and "y \<le> weight c * weight b"
  shows "x + y + 1 \<le> (weight a + weight c + 1) * weight b"
proof -
  have "1 \<le> weight b" using weight_ge2 [of b] by simp
  then show ?thesis using assms by (simp add: algebra_simps)
qed

lemma weight_star_plus:
  assumes "x \<le> weight a * weight b" and "y \<le> weight a * weight c"
  shows "x + y + 1 \<le> weight a * (weight b + weight c + 1)"
proof -
  have "1 \<le> weight a" using weight_ge2 [of a] by simp
  then show ?thesis using assms by (simp add: algebra_simps)
qed

lemma weight_distribute:
  assumes "distributeOrOverAnd_dom t" and "distributeOrOverAnd t = Inr t'"
  shows "weight t' \<le> weight t"
  using assms
proof (induction t arbitrary: t' rule: distributeOrOverAnd.pinduct)
  case 1
  then show ?case by (simp add: distributeOrOverAnd.psimps)
next
  case (2 v l r)
  show ?case
  proof (cases "l = Nullptr \<and> r = Nullptr")
    case True
    with 2 show ?thesis by (simp add: distributeOrOverAnd.psimps)
  next
    case False
    from "2.prems" "2.hyps" False obtain A B where
      A: "distributeOrOverAnd l = Inr A" and B: "distributeOrOverAnd r = Inr B"
      by (auto simp: distributeOrOverAnd.psimps split: sum.splits)
    have wA: "weight A \<le> weight l" using "2.IH"(1) False A by blast
    have wB: "weight B \<le> weight r" using "2.IH"(2) False A B by blast
    have wAB: "weight A * weight B \<le> weight l * weight r"
      using wA wB by (rule mult_le_mono)
    show ?thesis
    proof (cases "v = ''+''")
      case notplus: False
      with "2.prems" "2.hyps" \<open>\<not> (l = Nullptr \<and> r = Nullptr)\<close> A B have "t' = Node v A B"
        by (simp add: distributeOrOverAnd.psimps split: if_splits)
      with notplus wA wB show ?thesis by simp
    next
      case plus: True
      show ?thesis
      proof (cases A)
        case Nullptr
        with "2.prems" "2.hyps" False A B plus show ?thesis
          by (simp add: distributeOrOverAnd.psimps split: if_splits)
      next
        case NA: (Node av al ar)
        show ?thesis
        proof (cases "av = ''*''")
          case True
          from "2.prems" "2.hyps" False A B plus NA True obtain x y where
            x: "distributeOrOverAnd (Node ''+'' al B) = Inr x" and
            y: "distributeOrOverAnd (Node ''+'' ar B) = Inr y" and
            t': "t' = Node ''*'' x y"
            by (auto simp: distributeOrOverAnd.psimps split: sum.splits if_splits)
          have "weight x \<le> weight al * weight B"
            using "2.IH"(3) [OF False A B plus NA True x] by simp
          moreover have "weight y \<le> weight ar * weight B"
            using "2.IH"(4) [OF False A B plus NA True x y] by simp
          ultimately have "weight x + weight y + 1 \<le> (weight al + weight ar + 1) * weight B"
            by (rule weight_plus_star)
          with wAB NA True t' plus show ?thesis by simp
        next
          case notstar: False
          show ?thesis
          proof (cases B)
            case Nullptr
            with "2.prems" "2.hyps" False A B plus NA notstar show ?thesis
              by (simp add: distributeOrOverAnd.psimps split: if_splits)
          next
            case NB: (Node bv bl br)
            show ?thesis
            proof (cases "bv = ''*''")
              case True
              from "2.prems" "2.hyps" False A B plus NA notstar NB True obtain x y where
                x: "distributeOrOverAnd (Node ''+'' A bl) = Inr x" and
                y: "distributeOrOverAnd (Node ''+'' A br) = Inr y" and
                t': "t' = Node ''*'' x y"
                by (auto simp: distributeOrOverAnd.psimps split: sum.splits if_splits)
              have "weight x \<le> weight A * weight bl"
                using "2.IH"(5) [OF False A B plus NA notstar NB True x] by simp
              moreover have "weight y \<le> weight A * weight br"
                using "2.IH"(6) [OF False A B plus NA notstar NB True x y] by simp
              ultimately have "weight x + weight y + 1 \<le> weight A * (weight bl + weight br + 1)"
                by (rule weight_star_plus)
              with wAB NB True t' plus show ?thesis by simp
            next
              case False
              with "2.prems" "2.hyps" \<open>\<not> (l = Nullptr \<and> r = Nullptr)\<close> A B plus NA notstar NB
              have "t' = Node v A B"
                by (simp add: distributeOrOverAnd.psimps split: if_splits)
              with plus wAB show ?thesis by simp
            qed
          qed
        qed
      qed
    qed
  qed
qed

lemma weight_left_less: "weight a * weight b < (weight a + weight c + 1) * weight b"
  using weight_ge2 [of b] by (simp add: algebra_simps)

lemma weight_right_less: "weight a * weight b < weight a * (weight b + weight c + 1)"
  using weight_ge2 [of a] by (simp add: algebra_simps)

lemma weight_child_less: "weight l < weight (Node v l r)" "weight r < weight (Node v l r)"
  using weight_ge2 [of l] weight_ge2 [of r] by (auto simp: algebra_simps)

lemma weight_call_left:
  assumes "distributeOrOverAnd_dom l" and "distributeOrOverAnd_dom r"
    and "distributeOrOverAnd l = Inr (Node ''*'' a c)" and "distributeOrOverAnd r = Inr B"
  shows "weight (Node ''+'' a B) < weight (Node ''+'' l r)"
    and "weight (Node ''+'' c B) < weight (Node ''+'' l r)"
proof -
  have "weight (Node ''*'' a c) \<le> weight l"
    using assms by (auto dest: weight_distribute)
  then have wA: "weight a + weight c + 1 \<le> weight l" by simp
  have wB: "weight B \<le> weight r"
    using assms by (auto dest: weight_distribute)
  have le: "(weight a + weight c + 1) * weight B \<le> weight l * weight r"
    using wA wB by (rule mult_le_mono)
  have "weight a * weight B < (weight a + weight c + 1) * weight B"
    by (rule weight_left_less)
  with le show "weight (Node ''+'' a B) < weight (Node ''+'' l r)" by simp
  have "weight c * weight B < (weight c + weight a + 1) * weight B"
    by (rule weight_left_less)
  with le show "weight (Node ''+'' c B) < weight (Node ''+'' l r)"
    by (simp add: add.commute)
qed

lemma weight_call_right:
  assumes "distributeOrOverAnd_dom l" and "distributeOrOverAnd_dom r"
    and "distributeOrOverAnd l = Inr A" and "distributeOrOverAnd r = Inr (Node ''*'' b c)"
  shows "weight (Node ''+'' A b) < weight (Node ''+'' l r)"
    and "weight (Node ''+'' A c) < weight (Node ''+'' l r)"
proof -
  have "weight (Node ''*'' b c) \<le> weight r"
    using assms by (auto dest: weight_distribute)
  then have wB: "weight b + weight c + 1 \<le> weight r" by simp
  have wA: "weight A \<le> weight l"
    using assms by (auto dest: weight_distribute)
  have le: "weight A * (weight b + weight c + 1) \<le> weight l * weight r"
    using wA wB by (rule mult_le_mono)
  have "weight A * weight b < weight A * (weight b + weight c + 1)"
    by (rule weight_right_less)
  with le show "weight (Node ''+'' A b) < weight (Node ''+'' l r)" by simp
  have "weight A * weight c < weight A * (weight c + weight b + 1)"
    by (rule weight_right_less)
  with le show "weight (Node ''+'' A c) < weight (Node ''+'' l r)"
    by (simp add: add.commute)
qed
termination distributeOrOverAnd
proof (relation "measure weight", goal_cases)
  case 1
  show ?case by simp
next
  case (2 v l r)
  show ?case using weight_child_less(1) [of l v r] by simp
next
  case (3 v l r A)
  show ?case using weight_child_less(2) [of r v l] by simp
next
  case (4 v l r A B av al ar)
  then show ?case using weight_call_left(1) [of l r al ar B] by simp
next
  case (5 v l r A B av al ar x)
  then show ?case using weight_call_left(2) [of l r al ar B] by simp
next
  case (6 v l r A B av al ar bv bl br)
  then show ?case using weight_call_right(1) [of l r A bl br] by simp
next
  case (7 v l r A B av al ar bv bl br x)
  then show ?case using weight_call_right(2) [of l r A bl br] by simp
qed

declare distributeOrOverAnd.simps [simp del]

definition convertToCNF :: "node \<Rightarrow> error + node" where
  "convertToCNF root = distributeOrOverAnd (moveNegations (eliminateImplications root))"

section \<open>Clause extraction and validity\<close>

text \<open>
  \<open>getLiterals\<close> and \<open>collectClauses\<close> append to the vector passed by reference;
  \<open>node->left->value\<close> dereferences a null pointer when a \<open>~\<close> node has no left child.
\<close>

fun getLiterals :: "node \<Rightarrow> string list \<Rightarrow> error + string list" where
  "getLiterals Nullptr literals = Inr literals"
| "getLiterals (Node v l r) literals =
     (if v = ''+'' then
        (case getLiterals l literals of
           Inl e \<Rightarrow> Inl e
         | Inr literals' \<Rightarrow> getLiterals r literals')
      else if v = ''~'' then
        (case l of
           Nullptr \<Rightarrow> Inl NullDeref
         | Node lv ll lr \<Rightarrow> Inr (literals @ [''~'' @ lv]))
      else Inr (literals @ [v]))"

fun collectClauses :: "node \<Rightarrow> string list list \<Rightarrow> error + string list list" where
  "collectClauses Nullptr clauses = Inr clauses"
| "collectClauses (Node v l r) clauses =
     (if v = ''*'' then
        (case collectClauses l clauses of
           Inl e \<Rightarrow> Inl e
         | Inr clauses' \<Rightarrow> collectClauses r clauses')
      else
        (case getLiterals (Node v l r) [] of
           Inl e \<Rightarrow> Inl e
         | Inr currentClause \<Rightarrow> Inr (clauses @ [currentClause])))"

text \<open>
  The inner loop of \<open>analyzeCNFValidity\<close> over one clause: \<open>literal[0] == '~'\<close>,
  the negation (\<open>literal.substr(1)\<close> or \<open>"~" + literal\<close>), and the scan with the set of
  literals seen so far.
\<close>

fun isNegated :: "string \<Rightarrow> bool" where
  "isNegated [] = False"
| "isNegated (c # cs) = (c = CHR ''~'')"

definition negationOf :: "string \<Rightarrow> string" where
  "negationOf literal = (if isNegated literal then tl literal else ''~'' @ literal)"

fun clauseIsTautology :: "string list \<Rightarrow> string set \<Rightarrow> bool" where
  "clauseIsTautology [] literalsInClause = False"
| "clauseIsTautology (literal # rest) literalsInClause =
     (if negationOf literal \<in> literalsInClause then True
      else clauseIsTautology rest (insert literal literalsInClause))"

text \<open>
  The outer loop with its two counters, and the function: the verdict and the values
  left in \<open>valid_count\<close> and \<open>invalid_count\<close>. The counters are \<open>int\<close>; they stay within
  range for up to \<open>2 ^ 31 - 1\<close> clauses.
\<close>

fun countClauses :: "string list list \<Rightarrow> int \<times> int \<Rightarrow> int \<times> int" where
  "countClauses [] (valid_count, invalid_count) = (valid_count, invalid_count)"
| "countClauses (clause # clauses) (valid_count, invalid_count) =
     (if clauseIsTautology clause {} then countClauses clauses (valid_count + 1, invalid_count)
      else countClauses clauses (valid_count, invalid_count + 1))"

definition analyzeCNFValidity :: "string list list \<Rightarrow> bool \<times> int \<times> int" where
  "analyzeCNFValidity clauses =
     (if clauses = [] then (True, 0, 0)
      else case countClauses clauses (0, 0) of
        (valid_count, invalid_count) \<Rightarrow> (invalid_count = 0, valid_count, invalid_count))"

chapter \<open>Properties\<close>

section \<open>Notions used in the statements\<close>

text \<open>
  A well-formed tree, in the words of the data model: a leaf carries a name that is not
  an operator, a \<open>~\<close> node has a left child only, and a node of a binary operator has
  both children.
\<close>

fun well_formed :: "node \<Rightarrow> bool" where
  "well_formed Nullptr = False"
| "well_formed (Node v l r) =
     (if l = Nullptr \<and> r = Nullptr then \<not> isOperator v
      else if v = ''~'' then well_formed l \<and> r = Nullptr
      else (v = ''*'' \<or> v = ''+'' \<or> v = ''>'') \<and> well_formed l \<and> well_formed r)"

text \<open>The truth value of a tree under an assignment, as a total function.\<close>

fun tval :: "node \<Rightarrow> (string \<rightharpoonup> bool) \<Rightarrow> bool" where
  "tval Nullptr vals = False"
| "tval (Node v l r) vals =
     (if l = Nullptr \<and> r = Nullptr then vals v = Some True
      else if v = ''~'' then \<not> tval l vals
      else if v = ''*'' then tval l vals \<and> tval r vals
      else if v = ''+'' then tval l vals \<or> tval r vals
      else if v = ''>'' then (tval l vals \<longrightarrow> tval r vals)
      else False)"

text \<open>
  Negation normal form: every node with the value \<open>~\<close> has an atom leaf as its left
  child and no right child. \<open>impl_free\<close>: no node carries \<open>>\<close>.
\<close>

fun isAtomLeaf :: "node \<Rightarrow> bool" where
  "isAtomLeaf (Node a Nullptr Nullptr) = (\<not> isOperator a)"
| "isAtomLeaf _ = False"

fun nnf :: "node \<Rightarrow> bool" where
  "nnf Nullptr = True"
| "nnf (Node v l r) = ((v = ''~'' \<longrightarrow> isAtomLeaf l \<and> r = Nullptr) \<and> nnf l \<and> nnf r)"

fun impl_free :: "node \<Rightarrow> bool" where
  "impl_free Nullptr = True"
| "impl_free (Node v l r) = (v \<noteq> ''>'' \<and> impl_free l \<and> impl_free r)"

text \<open>Conjunctive normal form: a tree of \<open>*\<close> over trees of \<open>+\<close> over literals.\<close>

fun isLiteral :: "node \<Rightarrow> bool" where
  "isLiteral Nullptr = False"
| "isLiteral (Node v l r) =
     (isAtomLeaf (Node v l r) \<or> (v = ''~'' \<and> isAtomLeaf l \<and> r = Nullptr))"

fun is_clause :: "node \<Rightarrow> bool" where
  "is_clause Nullptr = False"
| "is_clause (Node v l r) =
     (isLiteral (Node v l r) \<or> (v = ''+'' \<and> is_clause l \<and> is_clause r))"

fun is_cnf :: "node \<Rightarrow> bool" where
  "is_cnf Nullptr = False"
| "is_cnf (Node v l r) =
     (is_clause (Node v l r) \<or> (v = ''*'' \<and> is_cnf l \<and> is_cnf r))"

text \<open>
  The operand count of the tree builder, on the tokens in scan order: how many subtrees
  the stack holds, or \<open>None\<close> once an operator finds too few. A build fails when the
  count breaks off or does not end at one.
\<close>

fun operandCount :: "string list \<Rightarrow> nat \<Rightarrow> nat option" where
  "operandCount [] n = Some n"
| "operandCount (token # tokens) n =
     (if token = ''~'' then (if n < 1 then None else operandCount tokens n)
      else if isOperator token then (if n < 2 then None else operandCount tokens (n - 1))
      else operandCount tokens (n + 1))"

definition buildFails :: "string list \<Rightarrow> bool" where
  "buildFails prefix =
     (case operandCount (rev prefix) 0 of None \<Rightarrow> True | Some n \<Rightarrow> n \<noteq> 1)"

text \<open>
  The tokenizer as the specification words it: every maximal run of alphanumeric
  characters or underscores is one atom token.
\<close>

function tokenize_spec :: "string \<Rightarrow> string list" where
  "tokenize_spec [] = []"
| "tokenize_spec (c # cs) =
     (if isspace c then tokenize_spec cs
      else if isAtomChar c then
        (c # takeWhile isAtomChar cs) # tokenize_spec (dropWhile isAtomChar cs)
      else [c] # tokenize_spec cs)"
  by pat_completeness auto
termination
  by (relation "measure length") (auto simp: less_Suc_eq_le length_dropWhile_le)

text \<open>
  Parentheses of a token sequence, read from the left: the number of \<open>)\<close> that have
  no \<open>(\<close> before them to match.
\<close>

fun unmatchedClose :: "string list \<Rightarrow> nat \<Rightarrow> nat" where
  "unmatchedClose [] depth = 0"
| "unmatchedClose (t # ts) depth =
     (if t = ''('' then unmatchedClose ts (depth + 1)
      else if t = '')'' then
        (if depth = 0 then 1 + unmatchedClose ts 0 else unmatchedClose ts (depth - 1))
      else unmatchedClose ts depth)"

text \<open>
  Literal strings, as \<open>analyzeCNFValidity\<close> tells them apart: a positive literal does
  not start with \<open>~\<close>, a negative one is \<open>~\<close> followed by a positive one. A
  complementary pair is a positive literal \<open>p\<close> together with \<open>~p\<close>.
\<close>

definition isLiteralString :: "string \<Rightarrow> bool" where
  "isLiteralString l = (if isNegated l then \<not> isNegated (tl l) else True)"

definition hasComplementaryPair :: "string list \<Rightarrow> bool" where
  "hasComplementaryPair clause =
     (\<exists>p\<in>set clause. \<not> isNegated p \<and> (''~'' @ p) \<in> set clause)"

text \<open>
  A chain \<open>a op x\<^sub>1 op \<dots> op x\<^sub>n\<close> of one binary operator, and the tree that groups it
  to the left.
\<close>

definition chainTokens :: "string \<Rightarrow> string \<Rightarrow> string list \<Rightarrow> string list" where
  "chainTokens op a as = a # concat (map (\<lambda>x. [op, x]) as)"

definition leftNested :: "string \<Rightarrow> string \<Rightarrow> string list \<Rightarrow> node" where
  "leftNested op a as =
     foldl (\<lambda>t x. Node op t (Node x Nullptr Nullptr)) (Node a Nullptr Nullptr) as"

section \<open>Notions used in the proofs\<close>

text \<open>
  The successful runs of \<open>distributeOrOverAnd\<close> as an inductive relation between the
  argument and the result, one rule for each way through the function.
\<close>

inductive distributes :: "node \<Rightarrow> node \<Rightarrow> bool" where
  d_null: "distributes Nullptr Nullptr"
| d_leaf: "distributes (Node v Nullptr Nullptr) (Node v Nullptr Nullptr)"
| d_other: "l \<noteq> Nullptr \<or> r \<noteq> Nullptr \<Longrightarrow> v \<noteq> ''+'' \<Longrightarrow> distributes l A \<Longrightarrow> distributes r B
     \<Longrightarrow> distributes (Node v l r) (Node v A B)"
| d_left: "l \<noteq> Nullptr \<or> r \<noteq> Nullptr \<Longrightarrow> distributes l (Node ''*'' al ar) \<Longrightarrow> distributes r B
     \<Longrightarrow> distributes (Node ''+'' al B) x \<Longrightarrow> distributes (Node ''+'' ar B) y
     \<Longrightarrow> distributes (Node ''+'' l r) (Node ''*'' x y)"
| d_right: "l \<noteq> Nullptr \<or> r \<noteq> Nullptr \<Longrightarrow> distributes l (Node av a1 a2) \<Longrightarrow> av \<noteq> ''*''
     \<Longrightarrow> distributes r (Node ''*'' bl br)
     \<Longrightarrow> distributes (Node ''+'' (Node av a1 a2) bl) x
     \<Longrightarrow> distributes (Node ''+'' (Node av a1 a2) br) y
     \<Longrightarrow> distributes (Node ''+'' l r) (Node ''*'' x y)"
| d_none: "l \<noteq> Nullptr \<or> r \<noteq> Nullptr \<Longrightarrow> distributes l (Node av a1 a2) \<Longrightarrow> av \<noteq> ''*''
     \<Longrightarrow> distributes r (Node bv b1 b2) \<Longrightarrow> bv \<noteq> ''*''
     \<Longrightarrow> distributes (Node ''+'' l r) (Node ''+'' (Node av a1 a2) (Node bv b1 b2))"

text \<open>
  The parentheses on the operator stack of \<open>infixToPrefix\<close>: \<open>pendingOpen\<close> follows the
  number of \<open>(\<close> on the stack along the swapped sequence, \<open>closeExcess\<close> is the same
  number read on the original sequence.
\<close>

fun pendingOpen :: "string list \<Rightarrow> nat \<Rightarrow> nat" where
  "pendingOpen [] d = d"
| "pendingOpen (t # ts) d =
     pendingOpen ts (if t = ''('' then d + 1 else if t = '')'' then d - 1 else d)"

fun closeExcess :: "string list \<Rightarrow> nat" where
  "closeExcess [] = 0"
| "closeExcess (t # ts) =
     (if t = ''('' then closeExcess ts - 1
      else if t = '')'' then closeExcess ts + 1
      else closeExcess ts)"

section \<open>Well-formed trees\<close>

lemma isOperator_ops [simp]:
  "isOperator ''~''" "isOperator ''*''" "isOperator ''+''" "isOperator ''>''"
  by (simp_all add: isOperator_def)

lemma well_formed_leaf [simp]:
  "well_formed (Node a Nullptr Nullptr) \<longleftrightarrow> \<not> isOperator a"
  by simp

lemma well_formed_neg [simp]:
  "well_formed (Node ''~'' l r) \<longleftrightarrow> well_formed l \<and> r = Nullptr"
  by (cases "l = Nullptr \<and> r = Nullptr") auto

lemma well_formed_star [simp]:
  "well_formed (Node ''*'' l r) \<longleftrightarrow> well_formed l \<and> well_formed r"
  by (cases "l = Nullptr \<and> r = Nullptr") auto

lemma well_formed_plus [simp]:
  "well_formed (Node ''+'' l r) \<longleftrightarrow> well_formed l \<and> well_formed r"
  by (cases "l = Nullptr \<and> r = Nullptr") auto

lemma well_formed_imp [simp]:
  "well_formed (Node ''>'' l r) \<longleftrightarrow> well_formed l \<and> well_formed r"
  by (cases "l = Nullptr \<and> r = Nullptr") auto

lemma well_formed_not_null: "well_formed t \<Longrightarrow> t \<noteq> Nullptr"
  by (cases t) simp_all

lemma well_formed_cases [consumes 1, case_names Atom Not Bin]:
  assumes "well_formed t"
  obtains
    (Atom) a where "t = Node a Nullptr Nullptr" and "\<not> isOperator a"
  | (Not) l where "t = Node ''~'' l Nullptr" and "well_formed l" and "l \<noteq> Nullptr"
  | (Bin) v l r where "t = Node v l r" and "v = ''*'' \<or> v = ''+'' \<or> v = ''>''"
      and "well_formed l" and "well_formed r" and "l \<noteq> Nullptr" and "r \<noteq> Nullptr"
proof (cases t)
  case Nullptr
  with assms show ?thesis by simp
next
  case (Node v l r)
  show ?thesis
  proof (cases "l = Nullptr \<and> r = Nullptr")
    case True
    with Node assms have "t = Node v Nullptr Nullptr" and "\<not> isOperator v" by simp_all
    then show ?thesis by (rule Atom)
  next
    case False
    show ?thesis
    proof (cases "v = ''~''")
      case True
      with Node assms False have "t = Node ''~'' l Nullptr" and "well_formed l" by simp_all
      moreover from \<open>well_formed l\<close> have "l \<noteq> Nullptr" by (rule well_formed_not_null)
      ultimately show ?thesis by (rule Not)
    next
      case notneg: False
      with Node assms False have "v = ''*'' \<or> v = ''+'' \<or> v = ''>''"
        and "well_formed l" and "well_formed r"
        by (simp_all add: well_formed.simps(2))
      moreover from \<open>well_formed l\<close> have "l \<noteq> Nullptr" by (rule well_formed_not_null)
      moreover from \<open>well_formed r\<close> have "r \<noteq> Nullptr" by (rule well_formed_not_null)
      ultimately show ?thesis using Node Bin [of v l r] by blast
    qed
  qed
qed

declare well_formed.simps(2) [simp del]

lemma well_formed_induct [consumes 1, case_names Atom Not Bin]:
  assumes "well_formed t"
    and "\<And>a. \<not> isOperator a \<Longrightarrow> P (Node a Nullptr Nullptr)"
    and "\<And>l. well_formed l \<Longrightarrow> l \<noteq> Nullptr \<Longrightarrow> P l \<Longrightarrow> P (Node ''~'' l Nullptr)"
    and "\<And>v l r. v = ''*'' \<or> v = ''+'' \<or> v = ''>'' \<Longrightarrow> well_formed l \<Longrightarrow> well_formed r
           \<Longrightarrow> l \<noteq> Nullptr \<Longrightarrow> r \<noteq> Nullptr \<Longrightarrow> P l \<Longrightarrow> P r \<Longrightarrow> P (Node v l r)"
  shows "P t"
  using assms(1)
proof (induction t)
  case Nullptr
  then show ?case by simp
next
  case (Node v l r)
  from Node.prems show ?case
  proof (cases rule: well_formed_cases)
    case (Atom a)
    with assms(2) show ?thesis by simp
  next
    case (Not l')
    with assms(3) [of l] Node.IH(1) show ?thesis by simp
  next
    case (Bin v' l' r')
    with assms(4) [of v l r] Node.IH show ?thesis by simp
  qed
qed

lemma well_formed_nonleaf:
  assumes "well_formed (Node v l r)" and "l \<noteq> Nullptr \<or> r \<noteq> Nullptr"
  shows "(v = ''~'' \<and> well_formed l \<and> r = Nullptr)
     \<or> ((v = ''*'' \<or> v = ''+'' \<or> v = ''>'') \<and> well_formed l \<and> well_formed r)"
  using assms(1)
proof (cases rule: well_formed_cases)
  case (Atom a)
  with assms(2) show ?thesis by simp
next
  case (Not l')
  then show ?thesis by simp
next
  case (Bin v' l' r')
  then show ?thesis by simp
qed

subsection \<open>Atoms and evaluation\<close>

lemma collectAtoms_acc: "collectAtoms t atoms = collectAtoms t {} \<union> atoms"
proof (induction t arbitrary: atoms)
  case Nullptr
  show ?case by simp
next
  case (Node v l r)
  show ?case
    using Node.IH(1) [of "insert v atoms"] Node.IH(1) [of atoms] Node.IH(1) [of "{v}"]
      Node.IH(2) [of "collectAtoms l {} \<union> atoms"] Node.IH(2) [of "collectAtoms l {}"]
      Node.IH(2) [of "collectAtoms l {} \<union> insert v atoms"]
      Node.IH(2) [of "collectAtoms l {} \<union> {v}"]
    by auto
qed

lemma collectAtoms_Node:
  "collectAtoms (Node v l r) {} =
     (if l = Nullptr \<and> r = Nullptr \<and> \<not> isOperator v then {v} else {})
       \<union> collectAtoms l {} \<union> collectAtoms r {}"
  using collectAtoms_acc [of r "collectAtoms l {}"] collectAtoms_acc [of r "collectAtoms l {v}"]
    collectAtoms_acc [of l "{v}"]
  by auto

lemma collectAtoms_nonleaf:
  "well_formed l \<Longrightarrow> collectAtoms (Node v l r) {} = collectAtoms l {} \<union> collectAtoms r {}"
  using well_formed_not_null [of l] by (simp add: collectAtoms_Node del: collectAtoms.simps(2))

lemma finite_collectAtoms: "finite atoms \<Longrightarrow> finite (collectAtoms t atoms)"
  by (induction t arbitrary: atoms) simp_all

lemma well_formed_has_atom: "well_formed t \<Longrightarrow> collectAtoms t {} \<noteq> {}"
  by (induction rule: well_formed_induct)
     (auto simp: collectAtoms_Node simp del: collectAtoms.simps(2))

lemma evaluate_tval:
  assumes "well_formed t" and "collectAtoms t {} \<subseteq> dom vals"
  shows "evaluate t vals = Inr (tval t vals)"
  using assms
proof (induction rule: well_formed_induct)
  case (Atom a)
  then show ?case by (auto simp: dom_def)
next
  case (Not l)
  then show ?case by (simp add: collectAtoms_Node del: collectAtoms.simps(2))
next
  case (Bin v l r)
  then show ?case by (auto simp: collectAtoms_Node simp del: collectAtoms.simps(2))
qed

lemma evaluateNode_evaluate: "evaluateNode t vals = evaluate t vals"
  by (induction t) (auto split: sum.splits)

lemma tval_neg: "well_formed l \<Longrightarrow> tval (Node ''~'' l r) vals = (\<not> tval l vals)"
  using well_formed_not_null [of l] by auto

lemma tval_star:
  "well_formed l \<Longrightarrow> tval (Node ''*'' l r) vals = (tval l vals \<and> tval r vals)"
  using well_formed_not_null [of l] by auto

lemma tval_plus:
  "well_formed l \<Longrightarrow> tval (Node ''+'' l r) vals = (tval l vals \<or> tval r vals)"
  using well_formed_not_null [of l] by auto

lemma tval_imp:
  "well_formed l \<Longrightarrow> tval (Node ''>'' l r) vals = (tval l vals \<longrightarrow> tval r vals)"
  using well_formed_not_null [of l] by auto

section \<open>Implication elimination\<close>

lemma eliminateImplications_null [simp]:
  "eliminateImplications t = Nullptr \<longleftrightarrow> t = Nullptr"
  by (cases t) (simp_all add: Let_def)

lemma eliminateImplications_well_formed:
  "well_formed t \<Longrightarrow> well_formed (eliminateImplications t)"
  by (induction rule: well_formed_induct) (auto simp: Let_def)

lemma eliminateImplications_impl_free:
  "well_formed t \<Longrightarrow> impl_free (eliminateImplications t)"
  by (induction rule: well_formed_induct) (auto simp: Let_def isOperator_def)

lemma eliminateImplications_tval:
  "well_formed t \<Longrightarrow> tval (eliminateImplications t) vals = tval t vals"
  by (induction rule: well_formed_induct) (auto simp: Let_def)

lemma eliminateImplications_atoms:
  "well_formed t \<Longrightarrow> collectAtoms (eliminateImplications t) {} = collectAtoms t {}"
  by (induction rule: well_formed_induct)
     (auto simp: Let_def collectAtoms_Node simp del: collectAtoms.simps(2))

lemma eliminateImplications_impl_free_id:
  "well_formed t \<Longrightarrow> impl_free t \<Longrightarrow> eliminateImplications t = t"
  by (induction rule: well_formed_induct) (auto simp: Let_def)

section \<open>Negation normal form pass\<close>

lemma moveNegations_leaf: "moveNegations (Node a Nullptr Nullptr) = Node a Nullptr Nullptr"
  by simp

lemma moveNegations_not_atom:
  "\<not> isOperator a \<Longrightarrow>
     moveNegations (Node ''~'' (Node a Nullptr Nullptr) Nullptr)
       = Node ''~'' (Node a Nullptr Nullptr) Nullptr"
  by (simp add: isOperator_def)

lemma moveNegations_not_not:
  "moveNegations (Node ''~'' (Node ''~'' c cr) r) = moveNegations c"
  by simp

lemma moveNegations_not_or:
  "moveNegations (Node ''~'' (Node ''+'' a b) r)
     = Node ''*'' (moveNegations (Node ''~'' a Nullptr)) (moveNegations (Node ''~'' b Nullptr))"
  by simp

lemma moveNegations_not_and:
  "moveNegations (Node ''~'' (Node ''*'' a b) r)
     = Node ''+'' (moveNegations (Node ''~'' a Nullptr)) (moveNegations (Node ''~'' b Nullptr))"
  by simp

lemma moveNegations_not_imp:
  "moveNegations (Node ''~'' (Node ''>'' a b) r) = Node ''~'' (Node ''>'' a b) r"
  by simp

lemma moveNegations_bin:
  "v \<noteq> ''~'' \<Longrightarrow> l \<noteq> Nullptr \<or> r \<noteq> Nullptr \<Longrightarrow>
     moveNegations (Node v l r) = Node v (moveNegations l) (moveNegations r)"
  by auto

lemmas moveNegations_shapes =
  moveNegations_leaf moveNegations_not_atom moveNegations_not_not moveNegations_not_or
  moveNegations_not_and moveNegations_not_imp moveNegations_bin

declare moveNegations.simps [simp del]

text \<open>Induction along the calls of \<open>moveNegations\<close> on a well-formed tree.\<close>

lemma moveNegations_induct [consumes 1, case_names Atom NotAtom NotNot NotOr NotAnd NotImp Bin]:
  assumes "well_formed t"
    and "\<And>a. \<not> isOperator a \<Longrightarrow> P (Node a Nullptr Nullptr)"
    and "\<And>a. \<not> isOperator a \<Longrightarrow> P (Node ''~'' (Node a Nullptr Nullptr) Nullptr)"
    and "\<And>c. well_formed c \<Longrightarrow> c \<noteq> Nullptr \<Longrightarrow> P c
           \<Longrightarrow> P (Node ''~'' (Node ''~'' c Nullptr) Nullptr)"
    and "\<And>a b. well_formed a \<Longrightarrow> well_formed b \<Longrightarrow> a \<noteq> Nullptr \<Longrightarrow> b \<noteq> Nullptr
           \<Longrightarrow> P (Node ''~'' a Nullptr) \<Longrightarrow> P (Node ''~'' b Nullptr)
           \<Longrightarrow> P (Node ''~'' (Node ''+'' a b) Nullptr)"
    and "\<And>a b. well_formed a \<Longrightarrow> well_formed b \<Longrightarrow> a \<noteq> Nullptr \<Longrightarrow> b \<noteq> Nullptr
           \<Longrightarrow> P (Node ''~'' a Nullptr) \<Longrightarrow> P (Node ''~'' b Nullptr)
           \<Longrightarrow> P (Node ''~'' (Node ''*'' a b) Nullptr)"
    and "\<And>a b. well_formed a \<Longrightarrow> well_formed b \<Longrightarrow> a \<noteq> Nullptr \<Longrightarrow> b \<noteq> Nullptr
           \<Longrightarrow> P (Node ''~'' (Node ''>'' a b) Nullptr)"
    and "\<And>v l r. v = ''*'' \<or> v = ''+'' \<or> v = ''>'' \<Longrightarrow> well_formed l \<Longrightarrow> well_formed r
           \<Longrightarrow> l \<noteq> Nullptr \<Longrightarrow> r \<noteq> Nullptr \<Longrightarrow> P l \<Longrightarrow> P r \<Longrightarrow> P (Node v l r)"
  shows "P t"
  using assms(1)
proof (induction "size t" arbitrary: t rule: less_induct)
  case less
  from less.prems show ?case
  proof (cases rule: well_formed_cases)
    case (Atom a)
    with assms(2) show ?thesis by simp
  next
    case (Bin v l r)
    have "P l" using less.hyps [of l] Bin by simp
    moreover have "P r" using less.hyps [of r] Bin by simp
    ultimately show ?thesis using assms(8) [of v l r] Bin by simp
  next
    case (Not l)
    from \<open>well_formed l\<close> show ?thesis
    proof (cases rule: well_formed_cases)
      case (Atom a)
      with Not assms(3) show ?thesis by simp
    next
      case inner: (Not c)
      have "P c" using less.hyps [of c] Not inner by simp
      with Not inner assms(4) [of c] show ?thesis by simp
    next
      case inner: (Bin v a b)
      have wa: "well_formed (Node ''~'' a Nullptr)" and wb: "well_formed (Node ''~'' b Nullptr)"
        using inner by simp_all
      have Pa: "P (Node ''~'' a Nullptr)"
        using less.hyps [OF _ wa] Not inner by simp
      have Pb: "P (Node ''~'' b Nullptr)"
        using less.hyps [OF _ wb] Not inner by simp
      from inner(2) consider "v = ''*''" | "v = ''+''" | "v = ''>''" by blast
      then show ?thesis
      proof cases
        case 1
        with Not inner Pa Pb assms(6) [of a b] show ?thesis by simp
      next
        case 2
        with Not inner Pa Pb assms(5) [of a b] show ?thesis by simp
      next
        case 3
        with Not inner assms(7) [of a b] show ?thesis by simp
      qed
    qed
  qed
qed

lemma moveNegations_well_formed:
  "well_formed t \<Longrightarrow> well_formed (moveNegations t)"
  by (induction rule: moveNegations_induct) (auto simp: moveNegations_shapes)

lemma moveNegations_not_null: "well_formed t \<Longrightarrow> moveNegations t \<noteq> Nullptr"
  using moveNegations_well_formed [of t] well_formed_not_null [of "moveNegations t"] by blast

lemma moveNegations_impl_free:
  "well_formed t \<Longrightarrow> impl_free t \<Longrightarrow> impl_free (moveNegations t)"
  by (induction rule: moveNegations_induct) (auto simp: moveNegations_shapes)

lemma moveNegations_tval:
  "well_formed t \<Longrightarrow> tval (moveNegations t) vals = tval t vals"
proof (induction rule: moveNegations_induct)
  case (NotOr a b)
  have "moveNegations (Node ''~'' a Nullptr) \<noteq> Nullptr"
    using NotOr by (intro moveNegations_not_null) simp
  with NotOr show ?case by (simp add: moveNegations_shapes)
next
  case (NotAnd a b)
  have "moveNegations (Node ''~'' a Nullptr) \<noteq> Nullptr"
    using NotAnd by (intro moveNegations_not_null) simp
  with NotAnd show ?case by (simp add: moveNegations_shapes)
next
  case (Bin v l r)
  have "moveNegations l \<noteq> Nullptr" using Bin by (intro moveNegations_not_null)
  with Bin show ?case by (auto simp: moveNegations_shapes)
qed (simp_all add: moveNegations_shapes)

lemma moveNegations_nnf:
  "well_formed t \<Longrightarrow> impl_free t \<Longrightarrow> nnf (moveNegations t)"
  by (induction rule: moveNegations_induct) (auto simp: moveNegations_shapes)

lemma moveNegations_atoms:
  "well_formed t \<Longrightarrow> collectAtoms (moveNegations t) {} = collectAtoms t {}"
proof (induction rule: moveNegations_induct)
  case (NotOr a b)
  have "moveNegations (Node ''~'' a Nullptr) \<noteq> Nullptr"
    using NotOr by (intro moveNegations_not_null) simp
  with NotOr show ?case
    by (auto simp: moveNegations_shapes collectAtoms_Node simp del: collectAtoms.simps(2))
next
  case (NotAnd a b)
  have "moveNegations (Node ''~'' a Nullptr) \<noteq> Nullptr"
    using NotAnd by (intro moveNegations_not_null) simp
  with NotAnd show ?case
    by (auto simp: moveNegations_shapes collectAtoms_Node simp del: collectAtoms.simps(2))
next
  case (Bin v l r)
  have "moveNegations l \<noteq> Nullptr" using Bin by (intro moveNegations_not_null)
  with Bin show ?case
    by (auto simp: moveNegations_shapes collectAtoms_Node simp del: collectAtoms.simps(2))
qed (auto simp: moveNegations_shapes collectAtoms_Node simp del: collectAtoms.simps(2))

lemma moveNegations_nnf_id:
  "well_formed t \<Longrightarrow> nnf t \<Longrightarrow> moveNegations t = t"
proof (induction rule: well_formed_induct)
  case (Atom a)
  show ?case by (rule moveNegations_leaf)
next
  case (Not l)
  then obtain a where "l = Node a Nullptr Nullptr" "\<not> isOperator a"
    by (cases l rule: isAtomLeaf.cases) auto
  then show ?case by (simp add: moveNegations_not_atom)
next
  case (Bin v l r)
  then show ?case by (auto simp: moveNegations_bin)
qed

section \<open>Distribution pass\<close>

lemma distributeOrOverAnd_leaf:
  "distributeOrOverAnd (Node v Nullptr Nullptr) = Inr (Node v Nullptr Nullptr)"
  by (simp add: distributeOrOverAnd.simps)

lemma distributeOrOverAnd_other:
  assumes "l \<noteq> Nullptr \<or> r \<noteq> Nullptr" and "v \<noteq> ''+''"
    and "distributeOrOverAnd l = Inr A" and "distributeOrOverAnd r = Inr B"
  shows "distributeOrOverAnd (Node v l r) = Inr (Node v A B)"
  using assms by (auto simp: distributeOrOverAnd.simps(2) [of v l r])

lemma distributeOrOverAnd_left:
  assumes "l \<noteq> Nullptr \<or> r \<noteq> Nullptr"
    and "distributeOrOverAnd l = Inr (Node ''*'' al ar)" and "distributeOrOverAnd r = Inr B"
    and "distributeOrOverAnd (Node ''+'' al B) = Inr x"
    and "distributeOrOverAnd (Node ''+'' ar B) = Inr y"
  shows "distributeOrOverAnd (Node ''+'' l r) = Inr (Node ''*'' x y)"
  using assms by (auto simp: distributeOrOverAnd.simps(2) [of "''+''" l r])

lemma distributeOrOverAnd_right:
  assumes "l \<noteq> Nullptr \<or> r \<noteq> Nullptr"
    and "distributeOrOverAnd l = Inr (Node av a1 a2)" and "av \<noteq> ''*''"
    and "distributeOrOverAnd r = Inr (Node ''*'' bl br)"
    and "distributeOrOverAnd (Node ''+'' (Node av a1 a2) bl) = Inr x"
    and "distributeOrOverAnd (Node ''+'' (Node av a1 a2) br) = Inr y"
  shows "distributeOrOverAnd (Node ''+'' l r) = Inr (Node ''*'' x y)"
  using assms by (auto simp: distributeOrOverAnd.simps(2) [of "''+''" l r])

lemma distributeOrOverAnd_none:
  assumes "l \<noteq> Nullptr \<or> r \<noteq> Nullptr"
    and "distributeOrOverAnd l = Inr (Node av a1 a2)" and "av \<noteq> ''*''"
    and "distributeOrOverAnd r = Inr (Node bv b1 b2)" and "bv \<noteq> ''*''"
  shows "distributeOrOverAnd (Node ''+'' l r) = Inr (Node ''+'' (Node av a1 a2) (Node bv b1 b2))"
  using assms by (auto simp: distributeOrOverAnd.simps(2) [of "''+''" l r])

lemma distributeOrOverAnd_step:
  assumes "l \<noteq> Nullptr \<or> r \<noteq> Nullptr"
    and "distributeOrOverAnd l = Inr A" and "distributeOrOverAnd r = Inr B"
  shows "distributeOrOverAnd (Node v l r) =
     (if v = ''+'' then
        (case A of
           Nullptr \<Rightarrow> Inl NullDeref
         | Node av al ar \<Rightarrow>
             if av = ''*'' then
               (case distributeOrOverAnd (Node ''+'' al B) of
                  Inl e \<Rightarrow> Inl e
                | Inr x \<Rightarrow>
                   (case distributeOrOverAnd (Node ''+'' ar B) of
                      Inl e \<Rightarrow> Inl e
                    | Inr y \<Rightarrow> Inr (Node ''*'' x y)))
             else
               (case B of
                  Nullptr \<Rightarrow> Inl NullDeref
                | Node bv bl br \<Rightarrow>
                    if bv = ''*'' then
                      (case distributeOrOverAnd (Node ''+'' A bl) of
                         Inl e \<Rightarrow> Inl e
                       | Inr x \<Rightarrow>
                          (case distributeOrOverAnd (Node ''+'' A br) of
                             Inl e \<Rightarrow> Inl e
                           | Inr y \<Rightarrow> Inr (Node ''*'' x y)))
                    else Inr (Node v A B)))
      else Inr (Node v A B))"
  using assms by (auto simp: distributeOrOverAnd.simps(2) [of v l r])

lemma distributeOrOverAnd_distributes:
  "distributeOrOverAnd t = Inr t' \<Longrightarrow> distributes t t'"
proof (induction t arbitrary: t' rule: distributeOrOverAnd.induct)
  case 1
  then show ?case by (simp add: distributeOrOverAnd.simps d_null)
next
  case (2 v l r)
  show ?case
  proof (cases "l = Nullptr \<and> r = Nullptr")
    case True
    with "2.prems" show ?thesis by (auto simp: distributeOrOverAnd.simps d_leaf)
  next
    case False
    then have nl: "l \<noteq> Nullptr \<or> r \<noteq> Nullptr" by blast
    from "2.prems" False obtain A B where
      A: "distributeOrOverAnd l = Inr A" and B: "distributeOrOverAnd r = Inr B"
      by (auto simp: distributeOrOverAnd.simps(2) [of v l r] split: sum.splits)
    have dA: "distributes l A" using "2.IH"(1) [OF False A] .
    have dB: "distributes r B" using "2.IH"(2) [OF False A B] .
    note step = "2.prems" [unfolded distributeOrOverAnd_step [OF nl A B]]
    show ?thesis
    proof (cases "v = ''+''")
      case notplus: False
      with step dA dB nl show ?thesis
        by (auto intro: d_other)
    next
      case plus: True
      show ?thesis
      proof (cases A)
        case Nullptr
        with step plus show ?thesis by simp
      next
        case NA: (Node av al ar)
        show ?thesis
        proof (cases "av = ''*''")
          case True
          from step plus NA True obtain x y where
            x: "distributeOrOverAnd (Node ''+'' al B) = Inr x" and
            y: "distributeOrOverAnd (Node ''+'' ar B) = Inr y" and
            t': "t' = Node ''*'' x y"
            by (auto split: sum.splits)
          have "distributes (Node ''+'' al B) x"
            using "2.IH"(3) [OF False A B plus NA True x] .
          moreover have "distributes (Node ''+'' ar B) y"
            using "2.IH"(4) [OF False A B plus NA True x y] .
          ultimately show ?thesis
            using d_left [OF nl _ dB, of al ar x y] dA NA True t' plus by simp
        next
          case notstar: False
          show ?thesis
          proof (cases B)
            case Nullptr
            with step plus NA notstar show ?thesis by simp
          next
            case NB: (Node bv bl br)
            show ?thesis
            proof (cases "bv = ''*''")
              case True
              from step plus NA notstar NB True obtain x y where
                x: "distributeOrOverAnd (Node ''+'' A bl) = Inr x" and
                y: "distributeOrOverAnd (Node ''+'' A br) = Inr y" and
                t': "t' = Node ''*'' x y"
                by (auto split: sum.splits)
              have "distributes (Node ''+'' A bl) x"
                using "2.IH"(5) [OF False A B plus NA notstar NB True x] .
              moreover have "distributes (Node ''+'' A br) y"
                using "2.IH"(6) [OF False A B plus NA notstar NB True x y] .
              ultimately show ?thesis
                using d_right [OF nl _ notstar, of al ar bl br x y] dA dB NA NB True t' plus
                by simp
            next
              case False
              with step plus NA notstar NB have "t' = Node ''+'' A B" by simp
              with d_none [OF nl _ notstar _ False, of al ar bl br] dA dB NA NB plus
              show ?thesis by simp
            qed
          qed
        qed
      qed
    qed
  qed
qed

inductive_cases distributes_NullptrE: "distributes Nullptr t'"

inductive_cases distributes_leafE: "distributes (Node v Nullptr Nullptr) t'"

lemma distributes_Nullptr [simp]: "distributes Nullptr t' \<longleftrightarrow> t' = Nullptr"
  by (auto elim: distributes_NullptrE intro: d_null)

lemma distributes_leaf [simp]:
  "distributes (Node v Nullptr Nullptr) t' \<longleftrightarrow> t' = Node v Nullptr Nullptr"
  by (auto elim: distributes_leafE intro: d_leaf)

lemma distributes_not_null: "distributes t Nullptr \<Longrightarrow> t = Nullptr"
  by (erule distributes.cases) simp_all

lemma distributes_well_formed:
  "distributes t t' \<Longrightarrow> well_formed t \<Longrightarrow> well_formed t'"
proof (induction rule: distributes.induct)
  case d_null
  then show ?case by simp
next
  case (d_leaf v)
  then show ?case by simp
next
  case (d_other l r v A B)
  from well_formed_nonleaf [OF d_other.prems d_other.hyps(1)] d_other.hyps(2)
  consider "v = ''~''" "well_formed l" "r = Nullptr"
    | "v = ''*'' \<or> v = ''>''" "well_formed l" "well_formed r"
    by blast
  then show ?case
  proof cases
    case 1
    have "B = Nullptr" using d_other.hyps(4) 1(3) by simp
    moreover have "well_formed A" using d_other.IH(1) 1(2) by blast
    ultimately show ?thesis using 1(1) by simp
  next
    case 2
    have wA: "well_formed A" using d_other.IH(1) 2(2) by blast
    have wB: "well_formed B" using d_other.IH(2) 2(3) by blast
    have "A \<noteq> Nullptr" using wA by auto
    with 2(1) wA wB show ?thesis by auto
  qed
next
  case (d_left l r al ar B x y)
  have wl: "well_formed l" and wr: "well_formed r"
    using d_left.prems by simp_all
  have "well_formed (Node ''*'' al ar)" using d_left.IH(1) wl by blast
  then have wal: "well_formed al" and war: "well_formed ar" by simp_all
  have wB: "well_formed B" using d_left.IH(2) wr by blast
  have "well_formed x" using d_left.IH(3) wal wB by simp
  moreover have "well_formed y" using d_left.IH(4) war wB by simp
  ultimately show ?case by simp
next
  case (d_right l r av a1 a2 bl br x y)
  have wl: "well_formed l" and wr: "well_formed r"
    using d_right.prems by simp_all
  have wA: "well_formed (Node av a1 a2)" using d_right.IH(1) wl by blast
  have "well_formed (Node ''*'' bl br)" using d_right.IH(2) wr by blast
  then have wbl: "well_formed bl" and wbr: "well_formed br" by simp_all
  have "well_formed (Node ''+'' (Node av a1 a2) bl)" using wA wbl by (rule well_formed_plus [THEN iffD2, OF conjI])
  then have "well_formed x" using d_right.IH(3) by blast
  moreover have "well_formed (Node ''+'' (Node av a1 a2) br)" using wA wbr by (rule well_formed_plus [THEN iffD2, OF conjI])
  then have "well_formed y" using d_right.IH(4) by blast
  ultimately show ?case by simp
next
  case (d_none l r av a1 a2 bv b1 b2)
  have wl: "well_formed l" and wr: "well_formed r"
    using d_none.prems by simp_all
  have wA: "well_formed (Node av a1 a2)" using d_none.IH(1) wl by blast
  have wB: "well_formed (Node bv b1 b2)" using d_none.IH(2) wr by blast
  show ?case using wA wB by (rule well_formed_plus [THEN iffD2, OF conjI])
qed

text \<open>Rule induction on a well-formed argument, with the well-formedness of every part.\<close>

lemma distributes_wf_induct
  [consumes 2, case_names leaf neg bin left right none]:
  assumes "distributes t t'" and "well_formed t"
    and leaf: "\<And>a. \<not> isOperator a \<Longrightarrow> P (Node a Nullptr Nullptr) (Node a Nullptr Nullptr)"
    and neg: "\<And>l A. well_formed l \<Longrightarrow> well_formed A \<Longrightarrow> distributes l A \<Longrightarrow> P l A
           \<Longrightarrow> P (Node ''~'' l Nullptr) (Node ''~'' A Nullptr)"
    and bin: "\<And>v l r A B. v = ''*'' \<or> v = ''>'' \<Longrightarrow> well_formed l \<Longrightarrow> well_formed r
           \<Longrightarrow> well_formed A \<Longrightarrow> well_formed B \<Longrightarrow> distributes l A \<Longrightarrow> distributes r B
           \<Longrightarrow> P l A \<Longrightarrow> P r B \<Longrightarrow> P (Node v l r) (Node v A B)"
    and left: "\<And>l r al ar B x y. well_formed l \<Longrightarrow> well_formed r \<Longrightarrow> well_formed al
           \<Longrightarrow> well_formed ar \<Longrightarrow> well_formed B \<Longrightarrow> well_formed x \<Longrightarrow> well_formed y
           \<Longrightarrow> distributes l (Node ''*'' al ar) \<Longrightarrow> distributes r B
           \<Longrightarrow> P l (Node ''*'' al ar) \<Longrightarrow> P r B
           \<Longrightarrow> P (Node ''+'' al B) x \<Longrightarrow> P (Node ''+'' ar B) y
           \<Longrightarrow> P (Node ''+'' l r) (Node ''*'' x y)"
    and right: "\<And>l r av a1 a2 bl br x y. well_formed l \<Longrightarrow> well_formed r
           \<Longrightarrow> well_formed (Node av a1 a2) \<Longrightarrow> av \<noteq> ''*''
           \<Longrightarrow> well_formed bl \<Longrightarrow> well_formed br \<Longrightarrow> well_formed x \<Longrightarrow> well_formed y
           \<Longrightarrow> distributes l (Node av a1 a2) \<Longrightarrow> distributes r (Node ''*'' bl br)
           \<Longrightarrow> P l (Node av a1 a2) \<Longrightarrow> P r (Node ''*'' bl br)
           \<Longrightarrow> P (Node ''+'' (Node av a1 a2) bl) x \<Longrightarrow> P (Node ''+'' (Node av a1 a2) br) y
           \<Longrightarrow> P (Node ''+'' l r) (Node ''*'' x y)"
    and none: "\<And>l r av a1 a2 bv b1 b2. well_formed l \<Longrightarrow> well_formed r
           \<Longrightarrow> well_formed (Node av a1 a2) \<Longrightarrow> av \<noteq> ''*''
           \<Longrightarrow> well_formed (Node bv b1 b2) \<Longrightarrow> bv \<noteq> ''*''
           \<Longrightarrow> distributes l (Node av a1 a2) \<Longrightarrow> distributes r (Node bv b1 b2)
           \<Longrightarrow> P l (Node av a1 a2) \<Longrightarrow> P r (Node bv b1 b2)
           \<Longrightarrow> P (Node ''+'' l r) (Node ''+'' (Node av a1 a2) (Node bv b1 b2))"
  shows "P t t'"
  using assms(1,2)
proof (induction rule: distributes.induct)
  case d_null
  then show ?case by simp
next
  case (d_leaf v)
  then show ?case using leaf by simp
next
  case (d_other l r v A B)
  from well_formed_nonleaf [OF d_other.prems d_other.hyps(1)] d_other.hyps(2)
  consider "v = ''~''" "well_formed l" "r = Nullptr"
    | "v = ''*'' \<or> v = ''>''" "well_formed l" "well_formed r"
    by blast
  then show ?case
  proof cases
    case 1
    have B: "B = Nullptr" using d_other.hyps(4) 1(3) by simp
    have wA: "well_formed A" using d_other.hyps(3) 1(2) by (rule distributes_well_formed)
    have "P l A" using d_other.IH(1) 1(2) by blast
    with neg [OF 1(2) wA d_other.hyps(3)] B 1 show ?thesis by simp
  next
    case 2
    have wA: "well_formed A" using d_other.hyps(3) 2(2) by (rule distributes_well_formed)
    have wB: "well_formed B" using d_other.hyps(4) 2(3) by (rule distributes_well_formed)
    have "P l A" using d_other.IH(1) 2(2) by blast
    moreover have "P r B" using d_other.IH(2) 2(3) by blast
    ultimately show ?thesis
      using bin [OF 2(1) 2(2) 2(3) wA wB d_other.hyps(3) d_other.hyps(4)] by blast
  qed
next
  case (d_left l r al ar B x y)
  have wl: "well_formed l" and wr: "well_formed r"
    using d_left.prems by simp_all
  have "well_formed (Node ''*'' al ar)"
    using d_left.hyps(2) wl by (rule distributes_well_formed)
  then have wal: "well_formed al" and war: "well_formed ar" by simp_all
  have wB: "well_formed B" using d_left.hyps(3) wr by (rule distributes_well_formed)
  have w1: "well_formed (Node ''+'' al B)" using wal wB by simp
  have w2: "well_formed (Node ''+'' ar B)" using war wB by simp
  have wx: "well_formed x" using d_left.hyps(4) w1 by (rule distributes_well_formed)
  have wy: "well_formed y" using d_left.hyps(5) w2 by (rule distributes_well_formed)
  have "P l (Node ''*'' al ar)" using d_left.IH(1) wl by blast
  moreover have "P r B" using d_left.IH(2) wr by blast
  moreover have "P (Node ''+'' al B) x" using d_left.IH(3) w1 by blast
  moreover have "P (Node ''+'' ar B) y" using d_left.IH(4) w2 by blast
  ultimately show ?case
    using left [OF wl wr wal war wB wx wy d_left.hyps(2) d_left.hyps(3)] by blast
next
  case (d_right l r av a1 a2 bl br x y)
  have wl: "well_formed l" and wr: "well_formed r"
    using d_right.prems by simp_all
  have wA: "well_formed (Node av a1 a2)"
    using d_right.hyps(2) wl by (rule distributes_well_formed)
  have "well_formed (Node ''*'' bl br)"
    using d_right.hyps(4) wr by (rule distributes_well_formed)
  then have wbl: "well_formed bl" and wbr: "well_formed br" by simp_all
  have w1: "well_formed (Node ''+'' (Node av a1 a2) bl)" using wA wbl by simp
  have w2: "well_formed (Node ''+'' (Node av a1 a2) br)" using wA wbr by simp
  have wx: "well_formed x" using d_right.hyps(5) w1 by (rule distributes_well_formed)
  have wy: "well_formed y" using d_right.hyps(6) w2 by (rule distributes_well_formed)
  have "P l (Node av a1 a2)" using d_right.IH(1) wl by blast
  moreover have "P r (Node ''*'' bl br)" using d_right.IH(2) wr by blast
  moreover have "P (Node ''+'' (Node av a1 a2) bl) x" using d_right.IH(3) w1 by blast
  moreover have "P (Node ''+'' (Node av a1 a2) br) y" using d_right.IH(4) w2 by blast
  ultimately show ?case
    using right [OF wl wr wA d_right.hyps(3) wbl wbr wx wy d_right.hyps(2) d_right.hyps(4)]
    by blast
next
  case (d_none l r av a1 a2 bv b1 b2)
  have wl: "well_formed l" and wr: "well_formed r"
    using d_none.prems by simp_all
  have wA: "well_formed (Node av a1 a2)"
    using d_none.hyps(2) wl by (rule distributes_well_formed)
  have wB: "well_formed (Node bv b1 b2)"
    using d_none.hyps(4) wr by (rule distributes_well_formed)
  have "P l (Node av a1 a2)" using d_none.IH(1) wl by blast
  moreover have "P r (Node bv b1 b2)" using d_none.IH(2) wr by blast
  ultimately show ?case
    using none [OF wl wr wA d_none.hyps(3) wB d_none.hyps(5) d_none.hyps(2) d_none.hyps(4)]
    by blast
qed

lemma distributes_tval:
  "distributes t t' \<Longrightarrow> well_formed t \<Longrightarrow> tval t' vals = tval t vals"
proof (induction rule: distributes_wf_induct)
  case (bin v l r A B)
  then show ?case by (auto simp: tval_star tval_imp simp del: tval.simps)
qed (auto simp: tval_neg tval_star tval_plus simp del: tval.simps)

lemma distributes_atoms:
  "distributes t t' \<Longrightarrow> well_formed t \<Longrightarrow> collectAtoms t' {} = collectAtoms t {}"
  by (induction rule: distributes_wf_induct)
     (auto simp: collectAtoms_nonleaf simp del: collectAtoms.simps(2))

lemma distributes_impl_free:
  "distributes t t' \<Longrightarrow> well_formed t \<Longrightarrow> impl_free t \<Longrightarrow> impl_free t'"
  by (induction rule: distributes_wf_induct) auto

lemma isAtomLeaf_distributes:
  "isAtomLeaf l \<Longrightarrow> distributes l A \<Longrightarrow> A = l"
  by (cases l rule: isAtomLeaf.cases) simp_all

lemma distributes_nnf:
  "distributes t t' \<Longrightarrow> well_formed t \<Longrightarrow> nnf t \<Longrightarrow> nnf t'"
proof (induction rule: distributes_wf_induct)
  case (neg l A)
  then show ?case using isAtomLeaf_distributes [of l A] by auto
qed auto

lemma is_cnf_star_free: "is_cnf (Node av a1 a2) \<Longrightarrow> av \<noteq> ''*'' \<Longrightarrow> is_clause (Node av a1 a2)"
  by simp

lemma distributes_is_cnf:
  "distributes t t' \<Longrightarrow> well_formed t \<Longrightarrow> nnf t \<Longrightarrow> impl_free t \<Longrightarrow> is_cnf t'"
proof (induction rule: distributes_wf_induct)
  case (leaf a)
  then show ?case by simp
next
  case (neg l A)
  then show ?case using isAtomLeaf_distributes [of l A] by auto
next
  case (bin v l r A B)
  then show ?case by auto
next
  case (left l r al ar B x y)
  have "nnf (Node ''*'' al ar)" "impl_free (Node ''*'' al ar)"
    using left distributes_nnf [of l "Node ''*'' al ar"]
      distributes_impl_free [of l "Node ''*'' al ar"] by simp_all
  moreover have "nnf B" "impl_free B"
    using left distributes_nnf [of r B] distributes_impl_free [of r B] by simp_all
  ultimately have "is_cnf x" "is_cnf y" using left by simp_all
  then show ?case by simp
next
  case (right l r av a1 a2 bl br x y)
  have "nnf (Node ''*'' bl br)" "impl_free (Node ''*'' bl br)"
    using right distributes_nnf [of r "Node ''*'' bl br"]
      distributes_impl_free [of r "Node ''*'' bl br"] by simp_all
  moreover have "nnf (Node av a1 a2)" "impl_free (Node av a1 a2)"
    using right distributes_nnf [of l "Node av a1 a2"]
      distributes_impl_free [of l "Node av a1 a2"] by simp_all
  ultimately have "is_cnf x" "is_cnf y" using right by simp_all
  then show ?case by simp
next
  case (none l r av a1 a2 bv b1 b2)
  then have "is_cnf (Node av a1 a2)" "is_cnf (Node bv b1 b2)" by simp_all
  with none have "is_clause (Node av a1 a2)" "is_clause (Node bv b1 b2)"
    by (auto intro: is_cnf_star_free)
  then show ?case by simp
qed

text \<open>
  A tree the pass has returned is returned unchanged when the pass visits it again.
\<close>

lemma distributes_fixpoint: "distributes t t' \<Longrightarrow> distributeOrOverAnd t' = Inr t'"
proof (induction rule: distributes.induct)
  case d_null
  show ?case by (simp add: distributeOrOverAnd.simps)
next
  case (d_leaf v)
  show ?case by (rule distributeOrOverAnd_leaf)
next
  case (d_other l r v A B)
  have "A \<noteq> Nullptr \<or> B \<noteq> Nullptr"
    using d_other.hyps distributes_not_null [of l] distributes_not_null [of r] by blast
  then show ?case using d_other.hyps(2) d_other.IH by (rule distributeOrOverAnd_other)
next
  case (d_left l r al ar B x y)
  have "x \<noteq> Nullptr" using d_left.hyps(4) distributes_not_null [of "Node ''+'' al B"] by blast
  then have "x \<noteq> Nullptr \<or> y \<noteq> Nullptr" by simp
  then show ?case using _ d_left.IH(3,4) by (rule distributeOrOverAnd_other) simp
next
  case (d_right l r av a1 a2 bl br x y)
  have "x \<noteq> Nullptr"
    using d_right.hyps(5) distributes_not_null [of "Node ''+'' (Node av a1 a2) bl"] by blast
  then have "x \<noteq> Nullptr \<or> y \<noteq> Nullptr" by simp
  then show ?case using _ d_right.IH(3,4) by (rule distributeOrOverAnd_other) simp
next
  case (d_none l r av a1 a2 bv b1 b2)
  have "Node av a1 a2 \<noteq> Nullptr \<or> Node bv b1 b2 \<noteq> Nullptr" by simp
  then show ?case using d_none.IH(1) d_none.hyps(3) d_none.IH(2) d_none.hyps(5)
    by (rule distributeOrOverAnd_none)
qed

lemma distributeOrOverAnd_fixpoint:
  "distributeOrOverAnd t = Inr t' \<Longrightarrow> distributeOrOverAnd t' = Inr t'"
  by (rule distributes_fixpoint) (rule distributeOrOverAnd_distributes)

text \<open>On a well-formed tree the pass dereferences no null pointer.\<close>

lemma distributeOrOverAnd_well_formed:
  "well_formed t \<Longrightarrow> \<exists>t'. distributeOrOverAnd t = Inr t'"
proof (induction t rule: distributeOrOverAnd.induct)
  case 1
  then show ?case by simp
next
  case (2 v l r)
  show ?case
  proof (cases "l = Nullptr \<and> r = Nullptr")
    case True
    then show ?thesis by (simp add: distributeOrOverAnd_leaf)
  next
    case False
    then have nl: "l \<noteq> Nullptr \<or> r \<noteq> Nullptr" by blast
    from well_formed_nonleaf [OF "2.prems" nl]
    consider "v = ''~''" "well_formed l" "r = Nullptr"
      | "v = ''*'' \<or> v = ''+'' \<or> v = ''>''" "well_formed l" "well_formed r"
      by blast
    then show ?thesis
    proof cases
      case 1
      from "2.IH"(1) [OF False 1(2)] obtain A where A: "distributeOrOverAnd l = Inr A" ..
      have B: "distributeOrOverAnd r = Inr Nullptr"
        using 1(3) by (simp add: distributeOrOverAnd.simps(1))
      have "v \<noteq> ''+''" using 1(1) by simp
      with nl have "distributeOrOverAnd (Node v l r) = Inr (Node v A Nullptr)"
        using A B by (rule distributeOrOverAnd_other)
      then show ?thesis ..
    next
      case 2
      from "2.IH"(1) [OF False 2(2)] obtain A where A: "distributeOrOverAnd l = Inr A" ..
      from "2.IH"(2) [OF False A 2(3)] obtain B where B: "distributeOrOverAnd r = Inr B" ..
      have wA: "well_formed A"
        using distributeOrOverAnd_distributes [OF A] 2(2) by (rule distributes_well_formed)
      have wB: "well_formed B"
        using distributeOrOverAnd_distributes [OF B] 2(3) by (rule distributes_well_formed)
      show ?thesis
      proof (cases "v = ''+''")
        case notplus: False
        with nl have "distributeOrOverAnd (Node v l r) = Inr (Node v A B)"
          using A B by (rule distributeOrOverAnd_other)
        then show ?thesis ..
      next
        case plus: True
        from wA obtain av al ar where NA: "A = Node av al ar"
          by (cases A) simp_all
        from wB obtain bv bl br where NB: "B = Node bv bl br"
          by (cases B) simp_all
        show ?thesis
        proof (cases "av = ''*''")
          case True
          from wA NA True have wal: "well_formed al" and war: "well_formed ar" by simp_all
          have w1: "well_formed (Node ''+'' al B)" using wal wB by simp
          have w2: "well_formed (Node ''+'' ar B)" using war wB by simp
          from "2.IH"(3) [OF False A B plus NA True w1]
          obtain x where x: "distributeOrOverAnd (Node ''+'' al B) = Inr x" ..
          from "2.IH"(4) [OF False A B plus NA True x w2]
          obtain y where y: "distributeOrOverAnd (Node ''+'' ar B) = Inr y" ..
          have "distributeOrOverAnd (Node ''+'' l r) = Inr (Node ''*'' x y)"
            using nl A [unfolded NA True] B x y by (rule distributeOrOverAnd_left)
          with plus show ?thesis by blast
        next
          case notstar: False
          show ?thesis
          proof (cases "bv = ''*''")
            case True
            from wB NB True have wbl: "well_formed bl" and wbr: "well_formed br" by simp_all
            have w1: "well_formed (Node ''+'' A bl)" using wA wbl by simp
            have w2: "well_formed (Node ''+'' A br)" using wA wbr by simp
            from "2.IH"(5) [OF False A B plus NA notstar NB True w1]
            obtain x where x: "distributeOrOverAnd (Node ''+'' A bl) = Inr x" ..
            from "2.IH"(6) [OF False A B plus NA notstar NB True x w2]
            obtain y where y: "distributeOrOverAnd (Node ''+'' A br) = Inr y" ..
            have "distributeOrOverAnd (Node ''+'' l r) = Inr (Node ''*'' x y)"
              using nl A [unfolded NA] notstar B [unfolded NB True]
                x [unfolded NA] y [unfolded NA]
              by (rule distributeOrOverAnd_right)
            with plus show ?thesis by blast
          next
            case False
            have "distributeOrOverAnd (Node ''+'' l r)
                = Inr (Node ''+'' (Node av al ar) (Node bv bl br))"
              using nl A [unfolded NA] notstar B [unfolded NB] False
              by (rule distributeOrOverAnd_none)
            with plus show ?thesis by blast
          qed
        qed
      qed
    qed
  qed
qed

section \<open>The whole conversion\<close>

lemma convertToCNF_invariants:
  assumes "well_formed t"
  obtains t' where "convertToCNF t = Inr t'"
    and "distributes (moveNegations (eliminateImplications t)) t'"
    and "well_formed (moveNegations (eliminateImplications t))"
    and "nnf (moveNegations (eliminateImplications t))"
    and "impl_free (moveNegations (eliminateImplications t))"
proof -
  let ?e = "eliminateImplications t"
  let ?m = "moveNegations ?e"
  have we: "well_formed ?e" using assms by (rule eliminateImplications_well_formed)
  have ie: "impl_free ?e" using assms by (rule eliminateImplications_impl_free)
  have wm: "well_formed ?m" using we by (rule moveNegations_well_formed)
  have nm: "nnf ?m" using we ie by (rule moveNegations_nnf)
  have im: "impl_free ?m" using we ie by (rule moveNegations_impl_free)
  from distributeOrOverAnd_well_formed [OF wm]
  obtain t' where t': "distributeOrOverAnd ?m = Inr t'" ..
  have "convertToCNF t = Inr t'" using t' by (simp add: convertToCNF_def)
  moreover have "distributes ?m t'" using t' by (rule distributeOrOverAnd_distributes)
  ultimately show thesis using wm nm im by (rule that)
qed

lemma convertToCNF_is_cnf:
  assumes "well_formed t"
  shows "\<exists>t'. convertToCNF t = Inr t' \<and> is_cnf t'"
proof -
  from assms obtain t' where "convertToCNF t = Inr t'"
    and "distributes (moveNegations (eliminateImplications t)) t'"
    and "well_formed (moveNegations (eliminateImplications t))"
    and "nnf (moveNegations (eliminateImplications t))"
    and "impl_free (moveNegations (eliminateImplications t))"
    by (rule convertToCNF_invariants)
  then show ?thesis using distributes_is_cnf by blast
qed

lemma is_clause_well_formed: "is_clause t \<Longrightarrow> well_formed t \<and> nnf t \<and> impl_free t"
proof (induction t)
  case Nullptr
  then show ?case by simp
next
  case (Node v l r)
  show ?case
  proof (cases "v = ''+'' \<and> is_clause l \<and> is_clause r")
    case True
    with Node.IH show ?thesis by simp
  next
    case False
    with Node.prems have "isLiteral (Node v l r)" by auto
    then consider "l = Nullptr" "r = Nullptr" "\<not> isOperator v"
      | a where "v = ''~''" "l = Node a Nullptr Nullptr" "\<not> isOperator a" "r = Nullptr"
      by (cases l rule: isAtomLeaf.cases; cases r; auto)
    then show ?thesis
    proof cases
      case 1
      then show ?thesis by (auto simp: isOperator_def)
    next
      case 2
      then show ?thesis by (auto simp: isOperator_def)
    qed
  qed
qed

lemma is_cnf_well_formed: "is_cnf t \<Longrightarrow> well_formed t \<and> nnf t \<and> impl_free t"
proof (induction t)
  case Nullptr
  then show ?case by simp
next
  case (Node v l r)
  show ?case
  proof (cases "is_clause (Node v l r)")
    case True
    then show ?thesis by (rule is_clause_well_formed)
  next
    case False
    with Node.prems have "v = ''*''" and "is_cnf l" and "is_cnf r"
      by (simp_all del: is_clause.simps)
    with Node.IH show ?thesis by simp
  qed
qed

lemma is_clause_root: "is_clause (Node v l r) \<Longrightarrow> v \<noteq> ''*''"
  by (cases l rule: isAtomLeaf.cases; cases r) (auto simp: isOperator_def)

lemma is_clause_distributes_id: "is_clause t \<Longrightarrow> distributes t t"
proof (induction t)
  case Nullptr
  then show ?case by simp
next
  case (Node v l r)
  show ?case
  proof (cases "v = ''+'' \<and> is_clause l \<and> is_clause r")
    case True
    then obtain av a1 a2 bv b1 b2 where l: "l = Node av a1 a2" and r: "r = Node bv b1 b2"
      by (cases l; cases r) auto
    have "av \<noteq> ''*''" "bv \<noteq> ''*''" using True l r is_clause_root by blast+
    moreover have "distributes l l" "distributes r r" using True Node.IH by simp_all
    ultimately show ?thesis using True l r d_none [of l r av a1 a2 bv b1 b2] by simp
  next
    case False
    with Node.prems have "isLiteral (Node v l r)" by auto
    then consider "l = Nullptr" "r = Nullptr"
      | a where "v = ''~''" "l = Node a Nullptr Nullptr" "r = Nullptr"
      by (cases l rule: isAtomLeaf.cases; cases r; auto)
    then show ?thesis
    proof cases
      case 1
      then show ?thesis by simp
    next
      case 2
      have "distributes (Node ''~'' (Node a Nullptr Nullptr) Nullptr)
              (Node ''~'' (Node a Nullptr Nullptr) Nullptr)"
        by (rule d_other) (simp_all add: d_leaf d_null)
      with 2 show ?thesis by simp
    qed
  qed
qed

lemma is_cnf_distributes_id: "is_cnf t \<Longrightarrow> distributes t t"
proof (induction t)
  case Nullptr
  then show ?case by simp
next
  case (Node v l r)
  show ?case
  proof (cases "is_clause (Node v l r)")
    case True
    then show ?thesis by (rule is_clause_distributes_id)
  next
    case False
    with Node.prems have v: "v = ''*''" and "is_cnf l" and "is_cnf r"
      by (simp_all del: is_clause.simps)
    with Node.IH have "distributes l l" and "distributes r r" by simp_all
    moreover have "l \<noteq> Nullptr \<or> r \<noteq> Nullptr" using \<open>is_cnf l\<close> by auto
    ultimately show ?thesis using v by (auto intro: d_other)
  qed
qed

lemma is_cnf_fixpoint: "is_cnf t \<Longrightarrow> convertToCNF t = Inr t"
proof -
  assume cnf: "is_cnf t"
  then have "well_formed t" "nnf t" "impl_free t" using is_cnf_well_formed by blast+
  then have "moveNegations (eliminateImplications t) = t"
    by (simp add: eliminateImplications_impl_free_id moveNegations_nnf_id)
  moreover have "distributeOrOverAnd t = Inr t"
    using is_cnf_distributes_id [OF cnf] by (rule distributes_fixpoint)
  ultimately show ?thesis by (simp add: convertToCNF_def)
qed

lemma getLiterals_clause:
  "is_clause t \<Longrightarrow> \<exists>ls. getLiterals t acc = Inr (acc @ ls)"
proof (induction t arbitrary: acc)
  case Nullptr
  then show ?case by simp
next
  case (Node v l r)
  show ?case
  proof (cases "v = ''+''")
    case True
    with Node.prems have "is_clause l" "is_clause r"
      by (auto simp: isOperator_def elim: isAtomLeaf.elims)
    from Node.IH(1) [OF this(1), of acc] obtain ls where ls: "getLiterals l acc = Inr (acc @ ls)" ..
    from Node.IH(2) [OF \<open>is_clause r\<close>, of "acc @ ls"] obtain ls'
      where "getLiterals r (acc @ ls) = Inr ((acc @ ls) @ ls')" ..
    with True ls have "getLiterals (Node v l r) acc = Inr (acc @ (ls @ ls'))" by simp
    then show ?thesis ..
  next
    case False
    show ?thesis
    proof (cases "v = ''~''")
      case True
      with Node.prems have "isAtomLeaf l" by (auto simp: isOperator_def elim: isAtomLeaf.elims)
      then obtain a where "l = Node a Nullptr Nullptr" by (cases l rule: isAtomLeaf.cases) auto
      with True show ?thesis by simp
    next
      case notneg: False
      with False show ?thesis by simp
    qed
  qed
qed

lemma collectClauses_cnf:
  "is_cnf t \<Longrightarrow> \<exists>cs. collectClauses t acc = Inr (acc @ cs)"
proof (induction t arbitrary: acc)
  case Nullptr
  then show ?case by simp
next
  case (Node v l r)
  show ?case
  proof (cases "v = ''*''")
    case True
    with Node.prems have "is_cnf l" "is_cnf r"
      using is_clause_root [of v l r] by (auto simp del: is_clause.simps)
    from Node.IH(1) [OF this(1), of acc] obtain cs where cs: "collectClauses l acc = Inr (acc @ cs)" ..
    from Node.IH(2) [OF \<open>is_cnf r\<close>, of "acc @ cs"] obtain cs'
      where "collectClauses r (acc @ cs) = Inr ((acc @ cs) @ cs')" ..
    with True cs have "collectClauses (Node v l r) acc = Inr (acc @ (cs @ cs'))" by simp
    then show ?thesis ..
  next
    case False
    with Node.prems have "is_clause (Node v l r)" by (simp del: is_clause.simps)
    from getLiterals_clause [OF this, of "[]"] obtain ls
      where "getLiterals (Node v l r) [] = Inr ls" by auto
    with False have "collectClauses (Node v l r) acc = Inr (acc @ [ls])"
      by (simp del: getLiterals.simps)
    then show ?thesis ..
  qed
qed

section \<open>Semantic equivalence of the CNF conversion\<close>

text \<open>
  Claim C1. For every well-formed parse tree and every assignment that gives a value to
  each atom of the tree, \<open>convertToCNF\<close> returns a tree (it does not fail), the original
  tree evaluates to a boolean (no lookup fails), and the returned tree evaluates to
  the same boolean.
\<close>

theorem convertToCNF_preserves_evaluation:
  assumes "well_formed t" and "collectAtoms t {} \<subseteq> dom vals"
  shows "\<exists>t' b. convertToCNF t = Inr t' \<and> evaluate t vals = Inr b \<and> evaluate t' vals = Inr b"
proof -
  let ?e = "eliminateImplications t"
  let ?m = "moveNegations ?e"
  from assms(1) obtain t' where cnf: "convertToCNF t = Inr t'"
    and d: "distributes ?m t'" and wm: "well_formed ?m"
    by (rule convertToCNF_invariants)
  have we: "well_formed ?e" using assms(1) by (rule eliminateImplications_well_formed)
  have wt': "well_formed t'" using d wm by (rule distributes_well_formed)
  have "collectAtoms t' {} = collectAtoms ?m {}" using d wm by (rule distributes_atoms)
  also have "\<dots> = collectAtoms ?e {}" using we by (rule moveNegations_atoms)
  also have "\<dots> = collectAtoms t {}" using assms(1) by (rule eliminateImplications_atoms)
  finally have atoms: "collectAtoms t' {} \<subseteq> dom vals" using assms(2) by simp
  have "tval t' vals = tval ?m vals" using d wm by (rule distributes_tval)
  also have "\<dots> = tval ?e vals" using we by (rule moveNegations_tval)
  also have "\<dots> = tval t vals" using assms(1) by (rule eliminateImplications_tval)
  finally have sem: "tval t' vals = tval t vals" .
  have "evaluate t vals = Inr (tval t vals)" using assms by (rule evaluate_tval)
  moreover have "evaluate t' vals = Inr (tval t vals)"
    using evaluate_tval [OF wt' atoms] sem by simp
  ultimately show ?thesis using cnf by blast
qed

theorem convertToCNF_preserves_evaluation_witness:
  "\<exists>t' b.
     convertToCNF
       (Node ''+''
          (Node ''~'' (Node ''>'' (Node ''p'' Nullptr Nullptr) (Node ''q'' Nullptr Nullptr)) Nullptr)
          (Node ''*'' (Node ''q'' Nullptr Nullptr) (Node ''r'' Nullptr Nullptr))) = Inr t'
     \<and> evaluate
       (Node ''+''
          (Node ''~'' (Node ''>'' (Node ''p'' Nullptr Nullptr) (Node ''q'' Nullptr Nullptr)) Nullptr)
          (Node ''*'' (Node ''q'' Nullptr Nullptr) (Node ''r'' Nullptr Nullptr)))
       [''p'' \<mapsto> True, ''q'' \<mapsto> False, ''r'' \<mapsto> True] = Inr b
     \<and> evaluate t' [''p'' \<mapsto> True, ''q'' \<mapsto> False, ''r'' \<mapsto> True] = Inr b"
  by (rule convertToCNF_preserves_evaluation) (simp_all add: isOperator_def)

section \<open>Grouping of operator chains\<close>

text \<open>
  The tree builder returns well-formed trees.
\<close>

lemma buildLoop_well_formed:
  assumes "\<forall>t\<in>set st. well_formed t" and "buildLoop tokens st \<noteq> Nullptr"
  shows "well_formed (buildLoop tokens st)"
  using assms
proof (induction tokens arbitrary: st)
  case Nil
  then show ?case by (cases st rule: list.exhaust; cases "tl st") auto
next
  case (Cons token tokens)
  show ?case
  proof (cases "token = ''~''")
    case True
    with Cons.prems(2) obtain l st' where st: "st = l # st'" by (cases st) auto
    with Cons.prems(1) True have "\<forall>t\<in>set (Node token l Nullptr # st'). well_formed t" by simp
    from Cons.IH [OF this] Cons.prems(2) True st show ?thesis by simp
  next
    case notneg: False
    show ?thesis
    proof (cases "isOperator token")
      case True
      with notneg have bin: "token = ''*'' \<or> token = ''+'' \<or> token = ''>''"
        by (simp add: isOperator_def)
      from Cons.prems(2) True notneg obtain l r st' where st: "st = l # r # st'"
        by (cases st; cases "tl st") auto
      with Cons.prems(1) bin have "\<forall>t\<in>set (Node token l r # st'). well_formed t" by auto
      from Cons.IH [OF this] Cons.prems(2) True notneg st show ?thesis by simp
    next
      case False
      with Cons.prems(1) have "\<forall>t\<in>set (Node token Nullptr Nullptr # st). well_formed t"
        by simp
      from Cons.IH [OF this] Cons.prems(2) False show ?thesis by simp
    qed
  qed
qed

lemma buildParseTree_well_formed:
  "buildParseTree prefix \<noteq> Nullptr \<Longrightarrow> well_formed (buildParseTree prefix)"
  using buildLoop_well_formed [of "[]" "rev prefix"] by (simp add: buildParseTree_def)

text \<open>
  A chain of one binary operator between atoms is grouped to the left, whichever of
  \<open>*\<close>, \<open>+\<close> and \<open>>\<close> the operator is: in the reversed sequence an incoming operator
  never pops an equal one.
\<close>

lemma popToOpen_eq:
  "popToOpen ops out =
     (dropWhile (\<lambda>t. t \<noteq> ''('') ops, out @ takeWhile (\<lambda>t. t \<noteq> ''('') ops)"
  by (induction ops arbitrary: out) simp_all

lemma popHigher_eq:
  "popHigher token ops out =
     (dropWhile (\<lambda>t. precedence t > precedence token) ops,
      out @ takeWhile (\<lambda>t. precedence t > precedence token) ops)"
  by (induction ops arbitrary: out) simp_all

lemma precedence_paren [simp]: "precedence ''('' = -1" "precedence '')'' = -1"
  by (simp_all add: precedence_def)

lemma precedence_ge: "isOperator token \<Longrightarrow> 0 \<le> precedence token"
  by (auto simp: isOperator_def precedence_def)

lemma isOperator_not_paren: "isOperator token \<Longrightarrow> token \<noteq> ''('' \<and> token \<noteq> '')''"
  by (auto simp: isOperator_def)

lemma startsAlnum_not_paren: "startsAlnum token \<Longrightarrow> token \<noteq> ''('' \<and> token \<noteq> '')''"
  by (cases token) (auto simp: isalnum_def)

lemma startsAlnum_not_operator: "startsAlnum x \<Longrightarrow> \<not> isOperator x"
  by (cases x) (auto simp: isOperator_def isalnum_def)

lemma binary_not_atom:
  assumes "op = ''*'' \<or> op = ''+'' \<or> op = ''>''"
  shows "\<not> startsAlnum op" and "op \<noteq> ''(''" and "op \<noteq> '')''" and "isOperator op"
    and "op \<noteq> ''~''"
  using assms by (auto simp: isalnum_def isOperator_def)

lemma popHigher_same: "popHigher op (replicate k op) out = (replicate k op, out)"
  by (cases k) simp_all

lemma shunt_chain:
  assumes "op = ''*'' \<or> op = ''+'' \<or> op = ''>''" and "\<forall>x\<in>set xs. startsAlnum x"
  shows "shunt (concat (map (\<lambda>x. [x, op]) xs) @ rest) (replicate k op) out
     = shunt rest (replicate (k + length xs) op) (out @ xs)"
  using assms(2)
proof (induction xs arbitrary: k out)
  case Nil
  show ?case by simp
next
  case (Cons x xs)
  have "shunt (concat (map (\<lambda>x. [x, op]) (x # xs)) @ rest) (replicate k op) out
      = shunt (concat (map (\<lambda>x. [x, op]) xs) @ rest) (replicate (Suc k) op) (out @ [x])"
    using Cons.prems binary_not_atom [OF assms(1)] by (simp add: popHigher_same)
  also have "\<dots> = shunt rest (replicate (Suc k + length xs) op) ((out @ [x]) @ xs)"
    using Cons.IH [of "Suc k" "out @ [x]"] Cons.prems by simp
  finally show ?case by simp
qed

lemma swapParen_atom: "startsAlnum x \<Longrightarrow> swapParen x = x"
  using startsAlnum_not_paren [of x] by (simp add: swapParen_def)

lemma prefixOfTokens_chain:
  assumes "op = ''*'' \<or> op = ''+'' \<or> op = ''>''" and "\<forall>x\<in>set (a # as). startsAlnum x"
  shows "prefixOfTokens (chainTokens op a as) = replicate (length as) op @ a # as"
proof -
  have "swapParen op = op"
    using binary_not_atom(2,3) [OF assms(1)] by (simp add: swapParen_def)
  moreover have "set (chainTokens op a as) \<subseteq> insert op (set (a # as))"
    by (auto simp: chainTokens_def)
  ultimately have "\<forall>x\<in>set (rev (chainTokens op a as)). swapParen x = x"
    using assms(2) swapParen_atom by auto
  then have "map swapParen (rev (chainTokens op a as)) = rev (chainTokens op a as)"
    by (intro map_idI) blast
  also have "\<dots> = concat (map (\<lambda>x. [x, op]) (rev as)) @ [a]"
    by (simp add: chainTokens_def rev_concat rev_map o_def)
  finally have sw: "map swapParen (rev (chainTokens op a as))
      = concat (map (\<lambda>x. [x, op]) (rev as)) @ [a]" .
  have "shunt (concat (map (\<lambda>x. [x, op]) (rev as)) @ [a]) (replicate 0 op) []
      = shunt [a] (replicate (0 + length (rev as)) op) ([] @ rev as)"
    using assms by (intro shunt_chain) simp_all
  then have "shunt (map swapParen (rev (chainTokens op a as))) [] []
      = (replicate (length as) op, rev as @ [a])"
    using assms(2) by (simp add: sw)
  then show ?thesis by (simp add: prefixOfTokens_def)
qed

lemma buildLoop_atoms:
  assumes "\<forall>x\<in>set xs. startsAlnum x"
  shows "buildLoop (xs @ rest) st
     = buildLoop rest (map (\<lambda>x. Node x Nullptr Nullptr) (rev xs) @ st)"
  using assms
  by (induction xs arbitrary: st) (simp_all add: startsAlnum_not_operator)

lemma buildLoop_operators:
  assumes "op = ''*'' \<or> op = ''+'' \<or> op = ''>''"
  shows "buildLoop (replicate (length as) op) (t # map (\<lambda>x. Node x Nullptr Nullptr) as)
     = foldl (\<lambda>t x. Node op t (Node x Nullptr Nullptr)) t as"
  using binary_not_atom [OF assms]
  by (induction as arbitrary: t) simp_all

lemma binary_chain_groups_left:
  assumes "op = ''*'' \<or> op = ''+'' \<or> op = ''>''" and "\<forall>x\<in>set (a # as). startsAlnum x"
  shows "buildParseTree (prefixOfTokens (chainTokens op a as)) = leftNested op a as"
proof -
  have "buildParseTree (prefixOfTokens (chainTokens op a as))
      = buildLoop ((rev as @ [a]) @ replicate (length as) op) []"
    using prefixOfTokens_chain [OF assms] by (simp add: buildParseTree_def)
  also have "\<dots> = buildLoop (replicate (length as) op)
      (Node a Nullptr Nullptr # map (\<lambda>x. Node x Nullptr Nullptr) as)"
    using assms(2) by (subst buildLoop_atoms) (auto simp: rev_map)
  also have "\<dots> = leftNested op a as"
    using assms(1) by (simp add: buildLoop_operators leftNested_def)
  finally show ?thesis .
qed

text \<open>
  Claim C2. The claim asks that a chain of implications such as \<open>p > q > r\<close> parse to
  \<open>p > (q > r)\<close>. The code parses it to \<open>(p > q) > r\<close>, as it does for \<open>*\<close> and \<open>+\<close>;
  the two trees differ in value where \<open>p\<close> and \<open>r\<close> are false and \<open>q\<close> is true.
\<close>

theorem implication_chain_groups_left:
  "buildParseTree (infixToPrefix ''p > q > r'')
     = Node ''>'' (Node ''>'' (Node ''p'' Nullptr Nullptr) (Node ''q'' Nullptr Nullptr))
         (Node ''r'' Nullptr Nullptr)
   \<and> evaluate (buildParseTree (infixToPrefix ''p > q > r''))
       [''p'' \<mapsto> False, ''q'' \<mapsto> True, ''r'' \<mapsto> False] = Inr False
   \<and> evaluate
       (Node ''>'' (Node ''p'' Nullptr Nullptr)
          (Node ''>'' (Node ''q'' Nullptr Nullptr) (Node ''r'' Nullptr Nullptr)))
       [''p'' \<mapsto> False, ''q'' \<mapsto> True, ''r'' \<mapsto> False] = Inr True"
  by (simp add: infixToPrefix_def prefixOfTokens_def buildParseTree_def swapParen_def
      isspace_def isalnum_def isAtomChar_def isOperator_def precedence_def)

section \<open>Negation normal form invariant\<close>

text \<open>
  Claim C3. For every well-formed parse tree, in the tree that \<open>moveNegations\<close> returns
  within \<open>convertToCNF\<close> (that is, after \<open>eliminateImplications\<close>), and still in the tree
  that the following \<open>distributeOrOverAnd\<close> pass returns, every node whose value is \<open>~\<close>
  has an atom leaf as its left child and no right child. \<open>moveNegations\<close> by itself
  establishes this on every well-formed tree without \<open>>\<close> nodes.
\<close>

theorem negations_only_over_atoms:
  assumes "well_formed t"
  shows "(impl_free t \<longrightarrow> nnf (moveNegations t))
    \<and> nnf (moveNegations (eliminateImplications t))
    \<and> (\<exists>t'. convertToCNF t = Inr t' \<and> nnf t')"
proof -
  from assms obtain t' where "convertToCNF t = Inr t'"
    and "distributes (moveNegations (eliminateImplications t)) t'"
    and "well_formed (moveNegations (eliminateImplications t))"
    and "nnf (moveNegations (eliminateImplications t))"
    by (rule convertToCNF_invariants)
  then have "nnf (moveNegations (eliminateImplications t))
      \<and> (\<exists>t'. convertToCNF t = Inr t' \<and> nnf t')"
    using distributes_nnf by blast
  moreover have "impl_free t \<longrightarrow> nnf (moveNegations t)"
    using assms moveNegations_nnf by blast
  ultimately show ?thesis by blast
qed

theorem negations_only_over_atoms_witness:
  "nnf (moveNegations
      (Node ''~'' (Node ''+'' (Node ''p'' Nullptr Nullptr)
         (Node ''~'' (Node ''q'' Nullptr Nullptr) Nullptr)) Nullptr))
   \<and> nnf (moveNegations (eliminateImplications
      (Node ''~'' (Node ''>'' (Node ''p'' Nullptr Nullptr)
         (Node ''*'' (Node ''q'' Nullptr Nullptr) (Node ''~'' (Node ''r'' Nullptr Nullptr) Nullptr)))
       Nullptr)))
   \<and> (\<exists>t'. convertToCNF
      (Node ''~'' (Node ''>'' (Node ''p'' Nullptr Nullptr)
         (Node ''*'' (Node ''q'' Nullptr Nullptr) (Node ''~'' (Node ''r'' Nullptr Nullptr) Nullptr)))
       Nullptr) = Inr t' \<and> nnf t')"
proof (rule conjI)
  show "nnf (moveNegations
      (Node ''~'' (Node ''+'' (Node ''p'' Nullptr Nullptr)
         (Node ''~'' (Node ''q'' Nullptr Nullptr) Nullptr)) Nullptr))"
    by (rule negations_only_over_atoms [THEN conjunct1, THEN mp])
       (simp_all add: isOperator_def)
next
  show "nnf (moveNegations (eliminateImplications
      (Node ''~'' (Node ''>'' (Node ''p'' Nullptr Nullptr)
         (Node ''*'' (Node ''q'' Nullptr Nullptr) (Node ''~'' (Node ''r'' Nullptr Nullptr) Nullptr)))
       Nullptr)))
   \<and> (\<exists>t'. convertToCNF
      (Node ''~'' (Node ''>'' (Node ''p'' Nullptr Nullptr)
         (Node ''*'' (Node ''q'' Nullptr Nullptr) (Node ''~'' (Node ''r'' Nullptr Nullptr) Nullptr)))
       Nullptr) = Inr t' \<and> nnf t')"
    by (rule negations_only_over_atoms [THEN conjunct2]) (simp add: isOperator_def)
qed

section \<open>Clause tautologies\<close>

lemma negationOf_involution: "isLiteralString l \<Longrightarrow> negationOf (negationOf l) = l"
  by (cases l) (auto simp: negationOf_def isLiteralString_def)

lemma negationOf_neq: "negationOf l \<noteq> l"
  by (cases l) (auto simp: negationOf_def)

lemma clauseIsTautology_iff:
  assumes "\<forall>l\<in>set clause. isLiteralString l"
  shows "clauseIsTautology clause seen \<longleftrightarrow>
     (\<exists>l\<in>set clause. negationOf l \<in> seen \<union> set clause)"
  using assms
proof (induction clause arbitrary: seen)
  case Nil
  show ?case by simp
next
  case (Cons l rest)
  have ih: "clauseIsTautology rest (insert l seen) \<longleftrightarrow>
      (\<exists>x\<in>set rest. negationOf x \<in> insert l seen \<union> set rest)"
    using Cons.IH [of "insert l seen"] Cons.prems by simp
  have conv: "negationOf l \<in> set rest \<Longrightarrow> \<exists>x\<in>set rest. negationOf x = l"
    using negationOf_involution [of l] Cons.prems by auto
  show ?case
  proof (cases "negationOf l \<in> seen")
    case True
    then show ?thesis by auto
  next
    case False
    then have "clauseIsTautology (l # rest) seen \<longleftrightarrow>
        (\<exists>x\<in>set rest. negationOf x \<in> insert l seen \<union> set rest)"
      using ih by simp
    also have "\<dots> \<longleftrightarrow> (\<exists>x\<in>set (l # rest). negationOf x \<in> seen \<union> set (l # rest))"
      using False conv negationOf_neq [of l] by auto
    finally show ?thesis .
  qed
qed

lemma complementary_iff:
  assumes "\<forall>l\<in>set clause. isLiteralString l"
  shows "(\<exists>l\<in>set clause. negationOf l \<in> set clause) \<longleftrightarrow> hasComplementaryPair clause"
proof
  assume "\<exists>l\<in>set clause. negationOf l \<in> set clause"
  then obtain l where l: "l \<in> set clause" "negationOf l \<in> set clause" by blast
  show "hasComplementaryPair clause"
  proof (cases "isNegated l")
    case True
    then obtain p where p: "l = ''~'' @ p" by (cases l) auto
    with True l assms have "\<not> isNegated p" "p \<in> set clause"
      by (auto simp: isLiteralString_def negationOf_def)
    with l p show ?thesis unfolding hasComplementaryPair_def by blast
  next
    case False
    with l show ?thesis unfolding hasComplementaryPair_def negationOf_def by auto
  qed
next
  assume "hasComplementaryPair clause"
  then obtain p where "p \<in> set clause" "\<not> isNegated p" "''~'' @ p \<in> set clause"
    unfolding hasComplementaryPair_def by blast
  then show "\<exists>l\<in>set clause. negationOf l \<in> set clause"
    unfolding negationOf_def by auto
qed

lemma clauseIsTautology_complementary:
  assumes "\<forall>l\<in>set clause. isLiteralString l"
  shows "clauseIsTautology clause {} \<longleftrightarrow> hasComplementaryPair clause"
  using clauseIsTautology_iff [OF assms, of "{}"] complementary_iff [OF assms] by simp

lemma countClauses_counts:
  assumes "\<forall>c\<in>set clauses. \<forall>l\<in>set c. isLiteralString l"
  shows "countClauses clauses (v, i) =
     (v + int (length (filter hasComplementaryPair clauses)),
      i + int (length (filter (\<lambda>c. \<not> hasComplementaryPair c) clauses)))"
  using assms
proof (induction clauses arbitrary: v i)
  case Nil
  show ?case by simp
next
  case (Cons c clauses)
  then show ?case by (simp add: clauseIsTautology_complementary)
qed

text \<open>
  Claim C4. For every list of clauses made of literal strings (and short enough for the
  \<open>int\<close> counters), \<open>analyzeCNFValidity\<close> counts as tautological exactly the clauses
  that contain, for some atom \<open>p\<close>, both \<open>p\<close> and \<open>~p\<close>, counts the others as
  non-tautological, and returns true exactly when every clause has such a pair. A clause
  that only repeats one literal is counted as non-tautological.
\<close>

theorem analyzeCNFValidity_tautology_law:
  assumes "\<forall>c\<in>set clauses. \<forall>l\<in>set c. isLiteralString l"
    and "length clauses \<le> 2147483647"
  shows "analyzeCNFValidity clauses =
       ((\<forall>c\<in>set clauses. hasComplementaryPair c),
        int (length (filter hasComplementaryPair clauses)),
        int (length (filter (\<lambda>c. \<not> hasComplementaryPair c) clauses)))
     \<and> (\<forall>l n. isLiteralString l \<longrightarrow> analyzeCNFValidity [replicate n l] = (False, 0, 1))"
proof
  have "(filter (\<lambda>c. \<not> hasComplementaryPair c) clauses = []) =
      (\<forall>c\<in>set clauses. hasComplementaryPair c)"
    by (auto simp: filter_empty_conv)
  then show "analyzeCNFValidity clauses =
       ((\<forall>c\<in>set clauses. hasComplementaryPair c),
        int (length (filter hasComplementaryPair clauses)),
        int (length (filter (\<lambda>c. \<not> hasComplementaryPair c) clauses)))"
    using countClauses_counts [OF assms(1), of 0 0]
    by (cases "clauses = []") (simp_all add: analyzeCNFValidity_def)
next
  show "\<forall>l n. isLiteralString l \<longrightarrow> analyzeCNFValidity [replicate n l] = (False, 0, 1)"
  proof (intro allI impI)
    fix l n
    assume l: "isLiteralString l"
    then have lits: "\<forall>c\<in>set [replicate n l]. \<forall>x\<in>set c. isLiteralString x" by simp
    have "\<not> hasComplementaryPair (replicate n l)"
      by (auto simp: hasComplementaryPair_def)
    then show "analyzeCNFValidity [replicate n l] = (False, 0, 1)"
      using countClauses_counts [OF lits, of 0 0] by (simp add: analyzeCNFValidity_def)
  qed
qed

theorem analyzeCNFValidity_tautology_law_witness:
  "analyzeCNFValidity [[''p'', ''~p''], [''p'', ''p'', ''q''], [''~q'', ''r'', ''q'']] = (False, 2, 1)"
proof -
  have "analyzeCNFValidity [[''p'', ''~p''], [''p'', ''p'', ''q''], [''~q'', ''r'', ''q'']] =
       ((\<forall>c\<in>set [[''p'', ''~p''], [''p'', ''p'', ''q''], [''~q'', ''r'', ''q'']].
           hasComplementaryPair c),
        int (length (filter hasComplementaryPair
           [[''p'', ''~p''], [''p'', ''p'', ''q''], [''~q'', ''r'', ''q'']])),
        int (length (filter (\<lambda>c. \<not> hasComplementaryPair c)
           [[''p'', ''~p''], [''p'', ''p'', ''q''], [''~q'', ''r'', ''q'']])))"
    by (rule analyzeCNFValidity_tautology_law [THEN conjunct1])
       (simp_all add: isLiteralString_def)
  then show ?thesis by (simp add: hasComplementaryPair_def)
qed

section \<open>Failure of the tree builder\<close>

lemma buildLoop_operandCount:
  assumes "Nullptr \<notin> set st"
  shows "buildLoop tokens st = Nullptr \<longleftrightarrow>
     (case operandCount tokens (length st) of None \<Rightarrow> True | Some n \<Rightarrow> n \<noteq> 1)"
  using assms
proof (induction tokens arbitrary: st)
  case Nil
  then show ?case by (cases st rule: list.exhaust; cases "tl st") auto
next
  case (Cons token tokens)
  show ?case
  proof (cases "token = ''~''")
    case True
    show ?thesis
    proof (cases st)
      case Nil
      with True show ?thesis by simp
    next
      case (Cons l st')
      with Cons.prems have "Nullptr \<notin> set (Node token l Nullptr # st')" by simp
      from Cons.IH [OF this] True Cons show ?thesis by simp
    qed
  next
    case notneg: False
    show ?thesis
    proof (cases "isOperator token")
      case True
      show ?thesis
      proof (cases st)
        case Nil
        with True notneg show ?thesis by simp
      next
        case st1: (Cons l st')
        show ?thesis
        proof (cases st')
          case Nil
          with True notneg st1 show ?thesis by simp
        next
          case (Cons r st'')
          with Cons.prems st1 have "Nullptr \<notin> set (Node token l r # st'')" by simp
          from Cons.IH [OF this] True notneg st1 Cons show ?thesis by simp
        qed
      qed
    next
      case False
      with Cons.prems have "Nullptr \<notin> set (Node token Nullptr Nullptr # st)" by simp
      from Cons.IH [OF this] False notneg show ?thesis by simp
    qed
  qed
qed

text \<open>
  Claim C5. \<open>buildParseTree\<close> returns the null pointer if and only if, scanning the
  prefix tokens from the last to the first, some operator finds fewer subtrees on the
  stack than it needs (one for \<open>~\<close>, two for a binary operator), or the stack does not
  end with exactly one subtree.
\<close>

theorem buildParseTree_fails_iff:
  "buildParseTree prefix = Nullptr \<longleftrightarrow> buildFails prefix"
  using buildLoop_operandCount [of "[]" "rev prefix"]
  by (simp add: buildParseTree_def buildFails_def)

theorem buildParseTree_fails_iff_witness:
  "buildParseTree [''+'', ''p''] = Nullptr \<and> buildParseTree [''+'', ''p'', ''q''] \<noteq> Nullptr"
  using buildParseTree_fails_iff [of "[''+'', ''p'']"] buildParseTree_fails_iff [of "[''+'', ''p'', ''q'']"]
  by (simp add: buildFails_def isOperator_def)

section \<open>Tokens\<close>

lemma takeWhile_run:
  assumes "\<forall>x\<in>set run. P x" and "rest = [] \<or> \<not> P (hd rest)"
  shows "takeWhile P (run @ rest) = run" and "dropWhile P (run @ rest) = rest"
proof -
  have "takeWhile P rest = []" using assms(2) by (cases rest) auto
  then show "takeWhile P (run @ rest) = run" using assms(1) by (simp add: takeWhile_append2)
  have "dropWhile P rest = rest" using assms(2) by (cases rest) auto
  then show "dropWhile P (run @ rest) = rest" using assms(1) by (simp add: dropWhile_append2)
qed

lemma isalnum_not_isspace: "isalnum c \<Longrightarrow> \<not> isspace c"
  by (auto simp: isalnum_def isspace_def)

text \<open>
  Claim C6, amended. For every input string the tokenizer skips white space; at an
  alphanumeric character it emits one atom token, made of that character and the
  maximal run of alphanumeric characters and underscores that follows it; and it
  emits every other character that is not white space, an underscore that does not
  continue an atom included, as a token of its own. So an atom matches
  \<open>[A-Za-z0-9][A-Za-z0-9_]*\<close>.
\<close>

theorem tokenize_characterisation:
  "tokenize [] = []
   \<and> (\<forall>c s. isspace c \<longrightarrow> tokenize (c # s) = tokenize s)
   \<and> (\<forall>c run rest. isalnum c \<and> (\<forall>x\<in>set run. isAtomChar x)
          \<and> (rest = [] \<or> \<not> isAtomChar (hd rest))
        \<longrightarrow> tokenize (c # run @ rest) = (c # run) # tokenize rest)
   \<and> (\<forall>c s. \<not> isspace c \<and> \<not> isalnum c \<longrightarrow> tokenize (c # s) = [c] # tokenize s)"
proof (intro conjI allI impI)
  show "tokenize [] = []" by simp
next
  fix c s
  assume "isspace c"
  then show "tokenize (c # s) = tokenize s" by simp
next
  fix c run rest
  assume a: "isalnum c \<and> (\<forall>x\<in>set run. isAtomChar x) \<and> (rest = [] \<or> \<not> isAtomChar (hd rest))"
  then have run: "\<forall>x\<in>set run. isAtomChar x" and rest: "rest = [] \<or> \<not> isAtomChar (hd rest)"
    by simp_all
  have "takeWhile isAtomChar (run @ rest) = run" "dropWhile isAtomChar (run @ rest) = rest"
    using run rest by (rule takeWhile_run)+
  with a show "tokenize (c # run @ rest) = (c # run) # tokenize rest"
    by (simp add: isalnum_not_isspace)
next
  fix c s
  assume "\<not> isspace c \<and> \<not> isalnum c"
  then show "tokenize (c # s) = [c] # tokenize s" by simp
qed

theorem tokenize_characterisation_witness:
  "tokenize (CHR ''x'' # ''_1'' @ '' + _y'') = (CHR ''x'' # ''_1'') # tokenize '' + _y''"
  by (rule tokenize_characterisation [THEN conjunct2, THEN conjunct2, THEN conjunct1, rule_format])
     (simp add: isalnum_def isAtomChar_def)

text \<open>
  The claim as stated fails on an atom that begins with an underscore: the text \<open>_a\<close>
  is one run of atom characters, and the tokenizer returns two tokens.
\<close>

theorem tokenize_leading_underscore_counterexample:
  "tokenize ''_a'' = [''_'', ''a''] \<and> tokenize_spec ''_a'' = [''_a'']"
  by (simp add: isspace_def isalnum_def isAtomChar_def)

section \<open>Unbalanced parentheses\<close>

lemma pendingOpen_append:
  "pendingOpen (xs @ ys) d = pendingOpen ys (pendingOpen xs d)"
  by (induction xs arbitrary: d) simp_all

lemma pendingOpen_swapped: "pendingOpen (map swapParen (rev ts)) 0 = closeExcess ts"
  by (induction ts) (auto simp: pendingOpen_append swapParen_def)

lemma unmatchedClose_closeExcess: "unmatchedClose ts d = closeExcess ts - d"
  by (induction ts arbitrary: d) auto

lemma takeWhile_no_open: "''('' \<notin> set (takeWhile (\<lambda>t. t \<noteq> ''('') ops)"
  using set_takeWhileD [of "''(''" "\<lambda>t. t \<noteq> ''(''" ops] by blast

lemma takeWhile_higher_no_paren:
  assumes "isOperator token"
  shows "''('' \<notin> set (takeWhile (\<lambda>t. precedence t > precedence token) ops)"
    and "'')'' \<notin> set (takeWhile (\<lambda>t. precedence t > precedence token) ops)"
  using set_takeWhileD [of "''(''" "\<lambda>t. precedence t > precedence token" ops]
    set_takeWhileD [of "'')''" "\<lambda>t. precedence t > precedence token" ops]
    precedence_ge [OF assms]
  by auto

lemma count_list_split:
  "count_list (dropWhile P xs) x = count_list xs x - count_list (takeWhile P xs) x"
  using count_list_append [of "takeWhile P xs" "dropWhile P xs" x] by simp

lemma shunt_parens:
  assumes "shunt tokens ops out = (ops', out')"
    and "'')'' \<notin> set ops" and "''('' \<notin> set out" and "'')'' \<notin> set out"
  shows "'')'' \<notin> set ops' \<and> ''('' \<notin> set out' \<and> '')'' \<notin> set out'
    \<and> count_list ops' ''('' = pendingOpen tokens (count_list ops ''('')"
  using assms
proof (induction tokens arbitrary: ops out)
  case Nil
  then show ?case by simp
next
  case (Cons token tokens)
  show ?case
  proof (cases "startsAlnum token")
    case True
    then have np: "token \<noteq> ''('' \<and> token \<noteq> '')''" by (rule startsAlnum_not_paren)
    from Cons.prems(1) True have "shunt tokens ops (out @ [token]) = (ops', out')" by simp
    from Cons.IH [OF this] Cons.prems(2-4) np show ?thesis by auto
  next
    case notatom: False
    show ?thesis
    proof (cases "token = ''(''")
      case True
      with Cons.prems(1) notatom have "shunt tokens (token # ops) out = (ops', out')" by simp
      from Cons.IH [OF this] Cons.prems(2-4) True show ?thesis by auto
    next
      case notopen: False
      show ?thesis
      proof (cases "token = '')''")
        case True
        let ?ops1 = "dropWhile (\<lambda>t. t \<noteq> ''('') ops"
        let ?out1 = "out @ takeWhile (\<lambda>t. t \<noteq> ''('') ops"
        have out1: "''('' \<notin> set ?out1 \<and> '')'' \<notin> set ?out1"
          using Cons.prems(2-4) takeWhile_no_open [of ops]
            set_takeWhileD [of "'')''" "\<lambda>t. t \<noteq> ''(''" ops] by auto
        have cnt: "count_list ?ops1 ''('' = count_list ops ''(''"
          using takeWhile_no_open [of ops] by (simp add: count_list_split)
        have sub: "'')'' \<notin> set ?ops1" using Cons.prems(2) set_dropWhileD by fastforce
        have step: "shunt (token # tokens) ops out =
            (case ?ops1 of [] \<Rightarrow> shunt tokens [] ?out1
             | tp # ops2 \<Rightarrow> shunt tokens ops2 ?out1)"
          using notatom notopen True by (simp add: popToOpen_eq)
        show ?thesis
        proof (cases ?ops1)
          case Nil
          from Cons.prems(1) have "shunt tokens [] ?out1 = (ops', out')"
            unfolding step Nil by simp
          from Cons.IH [OF this] out1 cnt Nil True show ?thesis by auto
        next
          case inner: (Cons tp ops2)
          then have "tp = ''(''" using hd_dropWhile [of "\<lambda>t. t \<noteq> ''(''" ops] by auto
          from Cons.prems(1) have "shunt tokens ops2 ?out1 = (ops', out')"
            unfolding step inner by simp
          moreover have "count_list ops2 ''('' = count_list ops ''('' - 1"
            using cnt inner \<open>tp = ''(''\<close> by simp
          moreover have "'')'' \<notin> set ops2" using sub inner by simp
          ultimately show ?thesis using Cons.IH [of ops2 ?out1] out1 True by simp
        qed
      next
        case notclose: False
        show ?thesis
        proof (cases "isOperator token")
          case True
          let ?ops1 = "dropWhile (\<lambda>t. precedence t > precedence token) ops"
          let ?out1 = "out @ takeWhile (\<lambda>t. precedence t > precedence token) ops"
          have out1: "''('' \<notin> set ?out1 \<and> '')'' \<notin> set ?out1"
            using Cons.prems(3,4) takeWhile_higher_no_paren [OF True, of ops] by simp
          have cnt: "count_list ?ops1 ''('' = count_list ops ''(''"
            using takeWhile_higher_no_paren(1) [OF True, of ops] by (simp add: count_list_split)
          have sub: "'')'' \<notin> set (token # ?ops1)"
            using Cons.prems(2) set_dropWhileD notclose by fastforce
          from Cons.prems(1) notatom notopen notclose True
          have "shunt tokens (token # ?ops1) ?out1 = (ops', out')" by (simp add: popHigher_eq)
          from Cons.IH [OF this sub] out1 cnt notopen notclose show ?thesis by auto
        next
          case False
          with Cons.prems(1) notatom notopen notclose
          have "shunt tokens ops out = (ops', out')" by simp
          from Cons.IH [OF this] Cons.prems(2-4) notopen notclose show ?thesis by auto
        qed
      qed
    qed
  qed
qed

text \<open>
  Claim C7, amended. For every token sequence, balanced or not, \<open>infixToPrefix\<close>
  returns a token sequence in which no \<open>)\<close> appears. A \<open>(\<close> that is left on the
  operator stack at the end is emitted into the output like every other entry of the
  stack: the output contains one \<open>(\<close> for each \<open>)\<close> of the input that has no matching
  \<open>(\<close> before it, and none when there is no such \<open>)\<close>.
\<close>

theorem prefixOfTokens_parentheses:
  "'')'' \<notin> set (prefixOfTokens tokens)
   \<and> count_list (prefixOfTokens tokens) ''('' = unmatchedClose tokens 0"
proof -
  obtain ops out where s: "shunt (map swapParen (rev tokens)) [] [] = (ops, out)"
    by (cases "shunt (map swapParen (rev tokens)) [] []") blast
  from shunt_parens [OF s]
  have "'')'' \<notin> set ops" "''('' \<notin> set out" "'')'' \<notin> set out"
    and "count_list ops ''('' = pendingOpen (map swapParen (rev tokens)) 0"
    by simp_all
  then show ?thesis
    using s by (simp add: prefixOfTokens_def pendingOpen_swapped unmatchedClose_closeExcess)
qed

theorem prefixOfTokens_parentheses_witness:
  "'')'' \<notin> set (prefixOfTokens [''a'', '')'', ''+'', ''('', ''b'', '')'', '')''])
   \<and> count_list (prefixOfTokens [''a'', '')'', ''+'', ''('', ''b'', '')'', '')'']) ''('' = 2"
  using prefixOfTokens_parentheses [of "[''a'', '')'', ''+'', ''('', ''b'', '')'', '')'']"]
  by simp

text \<open>
  The claim as stated fails on the text \<open>)\<close>, whose prefix output is the token \<open>(\<close>.
  An unmatched parenthesis is not without effect either: \<open>c * ( b + a\<close> and
  \<open>c * b + a\<close> give different outputs.
\<close>

theorem prefixOfTokens_parentheses_counterexample:
  "''('' \<in> set (infixToPrefix '')'')
   \<and> infixToPrefix ''c * ( b + a'' \<noteq> infixToPrefix ''c * b + a''"
  by (simp add: infixToPrefix_def prefixOfTokens_def swapParen_def
      isspace_def isalnum_def isAtomChar_def isOperator_def precedence_def)

section \<open>Truth table\<close>

lemma shiftLeftOne_small: "n < 31 \<Longrightarrow> shiftLeftOne n = Some (2 ^ n)"
proof -
  assume n: "n < 31"
  then have "(2::int) ^ n \<le> 2 ^ 30" by (intro power_increasing) simp_all
  then have "((2::int) ^ n + 2 ^ 31) mod 2 ^ 32 = 2 ^ n + 2 ^ 31" by simp
  with n show ?thesis by (simp add: shiftLeftOne_def int32_def)
qed

lemma shiftLeftOne_31: "shiftLeftOne 31 = Some (- (2 ^ 31))"
  by (simp add: shiftLeftOne_def int32_def)

lemma dom_assign:
  "length vals = length atoms \<Longrightarrow> dom (assign atoms vals m) = dom m \<union> set atoms"
  by (induction atoms vals m rule: assign.induct) auto

lemma length_assignmentRow [simp]: "length (assignmentRow n i) = n"
  by (simp add: assignmentRow_def)

lemma nth_assignmentRow: "j < n \<Longrightarrow> assignmentRow n i ! j = bitOf i (n - 1 - j)"
  by (simp add: assignmentRow_def)

lemma bitOf_bit: "bitOf i k = bit i k"
  by (simp add: bitOf_def bit_nat_def)

lemma assignmentRow_inj:
  assumes "i < 2 ^ n" and "i' < 2 ^ n" and "assignmentRow n i = assignmentRow n i'"
  shows "i = i'"
proof (rule bit_eqI)
  fix k
  show "bit i k \<longleftrightarrow> bit i' k"
  proof (cases "k < n")
    case True
    then have "n - 1 - k < n" and "n - 1 - (n - 1 - k) = k" by simp_all
    with assms(3) nth_assignmentRow [of "n - 1 - k" n i] nth_assignmentRow [of "n - 1 - k" n i']
    show ?thesis by (simp add: bitOf_bit)
  next
    case False
    then have "(2::nat) ^ n \<le> 2 ^ k" by (intro power_increasing) simp_all
    with assms(1,2) have "i < 2 ^ k" "i' < 2 ^ k" by linarith+
    then have "i div 2 ^ k = 0" "i' div 2 ^ k = 0" by simp_all
    then show ?thesis by (simp add: bit_nat_def)
  qed
qed

lemma tableRows_well_formed:
  assumes "well_formed root" and "collectAtoms root {} \<subseteq> set atoms"
  shows "\<exists>rows. tableRows root atoms idx = Inr rows
    \<and> map fst rows = map (assignmentRow (length atoms)) idx"
proof (induction idx)
  case Nil
  show ?case by simp
next
  case (Cons i rest)
  let ?m = "assign atoms (assignmentRow (length atoms) i) Map.empty"
  have "collectAtoms root {} \<subseteq> dom ?m" using assms(2) by (simp add: dom_assign)
  with assms(1) have "evaluateNode root ?m = Inr (tval root ?m)"
    by (simp add: evaluateNode_evaluate evaluate_tval)
  with Cons show ?case by auto
qed

text \<open>
  With at most 30 atoms the table of a well-formed tree has the shape the documentation
  of \<open>generateTruthTable\<close> describes: the atoms in ascending order, \<open>2 ^ n\<close> rows with
  pairwise distinct assignments, and in row \<open>i\<close> the value of atom \<open>j\<close> is bit
  \<open>n - 1 - j\<close> of \<open>i\<close>.
\<close>

lemma generateTruthTable_shape:
  assumes "well_formed root" and "card (collectAtoms root {}) < 31"
  shows "\<exists>rows. generateTruthTable root
        = Inr (Rows (sorted_list_of_set (collectAtoms root {})) rows)
     \<and> length rows = 2 ^ card (collectAtoms root {})
     \<and> distinct (map fst rows)
     \<and> (\<forall>i<length rows. \<forall>j<card (collectAtoms root {}).
            fst (rows ! i) ! j = bitOf i (card (collectAtoms root {}) - 1 - j))"
proof -
  let ?A = "collectAtoms root {}"
  let ?atoms = "sorted_list_of_set ?A"
  let ?n = "card ?A"
  have fin: "finite ?A" by (simp add: finite_collectAtoms)
  have ne: "?A \<noteq> {}" using assms(1) by (rule well_formed_has_atom)
  have len: "length ?atoms = ?n" by simp
  have n0: "?n \<noteq> 0" using fin ne by simp
  have root: "root \<noteq> Nullptr" using assms(1) by (rule well_formed_not_null)
  have sub: "?A \<subseteq> set ?atoms" using fin by simp
  from tableRows_well_formed [OF assms(1) sub, of "[0..<2 ^ ?n]"] obtain rows
    where rows: "tableRows root ?atoms [0..<2 ^ ?n] = Inr rows"
      and fst: "map fst rows = map (assignmentRow ?n) [0..<2 ^ ?n]"
    by (auto simp: len)
  have total: "shiftLeftOne ?n = Some (2 ^ ?n)" using assms(2) by (rule shiftLeftOne_small)
  have natp: "nat ((2::int) ^ ?n) = 2 ^ ?n" by (simp add: nat_power_eq)
  have atoms_ne: "?atoms \<noteq> []" using fin ne by simp
  have gen: "generateTruthTable root = Inr (Rows ?atoms rows)"
    using root atoms_ne by (simp add: generateTruthTable_def Let_def total natp rows)
  have lrows: "length rows = 2 ^ ?n"
    using arg_cong [OF fst, of length] by simp
  have "inj_on (assignmentRow ?n) (set [0..<2 ^ ?n])"
    by (rule inj_onI) (auto intro: assignmentRow_inj)
  then have dist: "distinct (map fst rows)"
    unfolding fst by (simp add: distinct_map)
  have bits: "\<forall>i<length rows. \<forall>j<?n. fst (rows ! i) ! j = bitOf i (?n - 1 - j)"
  proof (intro allI impI)
    fix i j
    assume i: "i < length rows" and j: "j < ?n"
    have "fst (rows ! i) = map fst rows ! i" using i by simp
    also have "\<dots> = assignmentRow ?n i" unfolding fst using i lrows by simp
    finally show "fst (rows ! i) ! j = bitOf i (?n - 1 - j)"
      using j by (simp add: nth_assignmentRow)
  qed
  from gen lrows dist bits show ?thesis by blast
qed

lemma generateTruthTable_31:
  assumes "root \<noteq> Nullptr" and "card (collectAtoms root {}) = 31"
  shows "generateTruthTable root = Inr (Rows (sorted_list_of_set (collectAtoms root {})) [])"
proof -
  have len: "length (sorted_list_of_set (collectAtoms root {})) = 31"
    using assms(2) by (simp only: length_sorted_list_of_set)
  then have "sorted_list_of_set (collectAtoms root {}) \<noteq> []"
    by (auto simp del: length_sorted_list_of_set)
  with assms show ?thesis
    by (simp add: generateTruthTable_def Let_def shiftLeftOne_31)
qed

text \<open>
  Claim C8. The claim asks for \<open>2 ^ n\<close> rows for every well-formed tree with \<open>n \<ge> 1\<close>
  atoms. For the formula \<open>a+b+\<dots>+z+A+\<dots>+E\<close> with 31 atoms the loop bound
  \<open>1 << 31\<close> is negative and the table has no row.
\<close>

theorem truth_table_31_atoms_empty:
  "\<exists>atoms. generateTruthTable (buildParseTree (infixToPrefix
       ''a+b+c+d+e+f+g+h+i+j+k+l+m+n+o+p+q+r+s+t+u+v+w+x+y+z+A+B+C+D+E''))
     = Inr (Rows atoms []) \<and> length atoms = 31"
proof -
  let ?t = "buildParseTree (infixToPrefix
       ''a+b+c+d+e+f+g+h+i+j+k+l+m+n+o+p+q+r+s+t+u+v+w+x+y+z+A+B+C+D+E'')"
  have t: "?t = (Node ''+'' (Node ''+'' (Node ''+'' (Node ''+'' (Node ''+'' (Node ''+'' (Node ''+'' (Node ''+'' (Node ''+'' (Node ''+'' (Node ''+'' (Node ''+'' (Node ''+'' (Node ''+'' (Node ''+'' (Node ''+'' (Node ''+'' (Node ''+'' (Node ''+'' (Node ''+'' (Node ''+'' (Node ''+'' (Node ''+'' (Node ''+'' (Node ''+'' (Node ''+'' (Node ''+'' (Node ''+'' (Node ''+'' (Node ''+'' (Node ''a'' Nullptr Nullptr) (Node ''b'' Nullptr Nullptr)) (Node ''c'' Nullptr Nullptr)) (Node ''d'' Nullptr Nullptr)) (Node ''e'' Nullptr Nullptr)) (Node ''f'' Nullptr Nullptr)) (Node ''g'' Nullptr Nullptr)) (Node ''h'' Nullptr Nullptr)) (Node ''i'' Nullptr Nullptr)) (Node ''j'' Nullptr Nullptr)) (Node ''k'' Nullptr Nullptr)) (Node ''l'' Nullptr Nullptr)) (Node ''m'' Nullptr Nullptr)) (Node ''n'' Nullptr Nullptr)) (Node ''o'' Nullptr Nullptr)) (Node ''p'' Nullptr Nullptr)) (Node ''q'' Nullptr Nullptr)) (Node ''r'' Nullptr Nullptr)) (Node ''s'' Nullptr Nullptr)) (Node ''t'' Nullptr Nullptr)) (Node ''u'' Nullptr Nullptr)) (Node ''v'' Nullptr Nullptr)) (Node ''w'' Nullptr Nullptr)) (Node ''x'' Nullptr Nullptr)) (Node ''y'' Nullptr Nullptr)) (Node ''z'' Nullptr Nullptr)) (Node ''A'' Nullptr Nullptr)) (Node ''B'' Nullptr Nullptr)) (Node ''C'' Nullptr Nullptr)) (Node ''D'' Nullptr Nullptr)) (Node ''E'' Nullptr Nullptr))"
    by (simp add: infixToPrefix_def prefixOfTokens_def swapParen_def buildParseTree_def
        isspace_def isalnum_def isAtomChar_def isOperator_def precedence_def)
  have "collectAtoms ?t {} = {''a'', ''b'', ''c'', ''d'', ''e'', ''f'', ''g'', ''h'', ''i'', ''j'', ''k'', ''l'', ''m'', ''n'', ''o'', ''p'', ''q'', ''r'', ''s'', ''t'', ''u'', ''v'', ''w'', ''x'', ''y'', ''z'', ''A'', ''B'', ''C'', ''D'', ''E''}"
    unfolding t by (simp add: isOperator_def insert_commute)
  then have "card (collectAtoms ?t {}) = 31" by simp
  moreover have "?t \<noteq> Nullptr" unfolding t by simp
  ultimately have "generateTruthTable ?t
      = Inr (Rows (sorted_list_of_set (collectAtoms ?t {})) [])"
    by (rule generateTruthTable_31 [rotated])
  moreover have "length (sorted_list_of_set (collectAtoms ?t {})) = 31"
    using \<open>card (collectAtoms ?t {}) = 31\<close> by (simp only: length_sorted_list_of_set)
  ultimately show ?thesis by blast
qed

section \<open>Idempotence of the CNF conversion\<close>

text \<open>
  Claim C9. For every tree that is already in CNF (a conjunction tree of disjunction
  trees of literals, the shape \<open>convertToCNF\<close> produces, see \<open>convertToCNF_is_cnf\<close>),
  \<open>convertToCNF\<close> succeeds, \<open>collectClauses\<close> succeeds on the input and on the result,
  and the two clause lists are equal as multisets of multisets of literals.
\<close>

theorem convertToCNF_idempotent_on_cnf:
  assumes "is_cnf t"
  shows "\<exists>t' cs cs'. convertToCNF t = Inr t' \<and> collectClauses t [] = Inr cs
    \<and> collectClauses t' [] = Inr cs' \<and> mset (map mset cs') = mset (map mset cs)"
proof -
  from collectClauses_cnf [OF assms, of "[]"] obtain cs where "collectClauses t [] = Inr cs"
    by auto
  moreover have "convertToCNF t = Inr t" using assms by (rule is_cnf_fixpoint)
  ultimately show ?thesis by blast
qed

theorem convertToCNF_idempotent_on_cnf_witness:
  "\<exists>t' cs cs'.
     convertToCNF
       (Node ''*''
          (Node ''+'' (Node ''p'' Nullptr Nullptr) (Node ''q'' Nullptr Nullptr))
          (Node ''+'' (Node ''~'' (Node ''q'' Nullptr Nullptr) Nullptr)
             (Node ''r'' Nullptr Nullptr))) = Inr t'
     \<and> collectClauses
       (Node ''*''
          (Node ''+'' (Node ''p'' Nullptr Nullptr) (Node ''q'' Nullptr Nullptr))
          (Node ''+'' (Node ''~'' (Node ''q'' Nullptr Nullptr) Nullptr)
             (Node ''r'' Nullptr Nullptr))) [] = Inr cs
     \<and> collectClauses t' [] = Inr cs' \<and> mset (map mset cs') = mset (map mset cs)"
  by (rule convertToCNF_idempotent_on_cnf) (simp add: isOperator_def)

section \<open>Evaluator fallback\<close>

text \<open>
  Claim C10. A node with at least one child whose value is none of \<open>~\<close>, \<open>*\<close>, \<open>+\<close>,
  \<open>>\<close> evaluates to false under every assignment, in \<open>evaluate\<close> and in
  \<open>evaluateNode\<close>: no child is visited, no lookup is made, no error is raised.
\<close>

theorem evaluate_unknown_operator_false:
  assumes "l \<noteq> Nullptr \<or> r \<noteq> Nullptr" and "\<not> isOperator v"
  shows "evaluate (Node v l r) vals = Inr False \<and> evaluateNode (Node v l r) vals = Inr False"
  using assms by (auto simp: isOperator_def)

theorem evaluate_unknown_operator_false_witness:
  "evaluate (Node ''&'' (Node ''p'' Nullptr Nullptr) (Node ''q'' Nullptr Nullptr)) Map.empty
     = Inr False
   \<and> evaluateNode (Node ''&'' (Node ''p'' Nullptr Nullptr) (Node ''q'' Nullptr Nullptr)) Map.empty
     = Inr False"
  using evaluate_unknown_operator_false
    [of "Node ''p'' Nullptr Nullptr" "Node ''q'' Nullptr Nullptr" "''&''" Map.empty]
  by (simp add: isOperator_def)

end
